theory Spec2Isabelle
  imports Main
begin

section \<open>Calendar slots: data model\<close>

text \<open>
  A JavaScript \<^verbatim>\<open>Date\<close> is modelled by its time value: the integer number of
  milliseconds since 1970-01-01T00:00:00Z (what \<^verbatim>\<open>getTime()\<close> returns). Two Dates are
  compared by the source with \<^verbatim>\<open><\<close>, \<^verbatim>\<open><=\<close>, \<^verbatim>\<open>>\<close>, \<^verbatim>\<open>>=\<close>, which compare
  time values. The instants of the input (range bounds, event starts and ends, slot
  starts) and those the code derives from them by a time of day or a duration are taken
  as valid Dates (no \<^verbatim>\<open>NaN\<close> time value), with integral hours, minutes, durations
  and buffers, and with a UTC year that is not one of 0..99 (for those \<^verbatim>\<open>Date.UTC\<close>
  moves the year into 1900..1999). The buffered bounds of an event are not taken as
  valid: a buffer is any number of minutes, and \<^verbatim>\<open>new Date(v)\<close> is an Invalid Date when
  \<open>v\<close> lies beyond 8.64e15 milliseconds on either side of the epoch.
\<close>

type_synonym date = int

record TimeOfDay =
  hours :: int
  minutes :: int

text \<open>An entry of \<^verbatim>\<open>availability.include\<close>: \<^verbatim>\<open>{weekday, range}\<close>.\<close>

record AvailabilityEntry =
  weekday :: int
  rangeT :: "TimeOfDay list"

record CalendarAvailability =
  includeE :: "AvailabilityEntry list"

record Buffer =
  before :: int
  after :: int

text \<open>\<^verbatim>\<open>{start, end, buffer?}\<close>; the optional \<^verbatim>\<open>buffer\<close> is an option.\<close>

record CalendarEvent =
  startE :: date
  endE :: date
  buffer :: "Buffer option"

record CalendarSlot =
  start :: date
  durationM :: int

section \<open>Date arithmetic (UTC)\<close>

definition msPerMinute :: int where "msPerMinute = 60000"
definition msPerHour :: int where "msPerHour = 3600000"
definition msPerDay :: int where "msPerDay = 86400000"

text \<open>\<^verbatim>\<open>Day(t) = floor(t / msPerDay)\<close>: the number of the UTC day of an instant.\<close>

definition utcDay :: "date \<Rightarrow> int" where
  "utcDay t = t div msPerDay"

text \<open>\<^verbatim>\<open>getUTCDay()\<close>: \<^verbatim>\<open>(Day(t) + 4) modulo 7\<close>, 0 = Sunday (1970-01-01 was a Thursday).\<close>

definition getUTCDay :: "date \<Rightarrow> int" where
  "getUTCDay t = (utcDay t + 4) mod 7"

text \<open>
  \<^verbatim>\<open>new Date(Date.UTC(d.getUTCFullYear(), d.getUTCMonth(), d.getUTCDate(), h, m))\<close>:
  midnight of the UTC day of \<open>d\<close> plus \<open>h\<close> hours and \<open>m\<close> minutes; \<open>h\<close> and \<open>m\<close>
  beyond 23 and 59 carry over into the following hours and days.
\<close>

definition dateUTC :: "date \<Rightarrow> int \<Rightarrow> int \<Rightarrow> date" where
  "dateUTC d h m = utcDay d * msPerDay + h * msPerHour + m * msPerMinute"

text \<open>\<^verbatim>\<open>d.setUTCDate(d.getUTCDate() + 1)\<close>: the same time of day on the next UTC day.\<close>

definition nextUTCDate :: "date \<Rightarrow> date" where
  "nextUTCDate d = d + msPerDay"

text \<open>
  \<^verbatim>\<open>new Date(v)\<close> for a time value that may be out of range (\<^verbatim>\<open>TimeClip\<close>): \<open>None\<close> is
  the Invalid Date, whose time value is \<^verbatim>\<open>NaN\<close>.
\<close>

definition maxTimeValue :: int where
  "maxTimeValue = 8640000000000000"

definition timeClip :: "int \<Rightarrow> date option" where
  "timeClip v = (if - maxTimeValue \<le> v \<and> v \<le> maxTimeValue then Some v else None)"

text \<open>
  \<^verbatim>\<open>a < b\<close>, \<^verbatim>\<open>a <= b\<close>, \<^verbatim>\<open>a > b\<close> and \<^verbatim>\<open>a >= b\<close> on Dates of which one may be
  invalid: a comparison with \<^verbatim>\<open>NaN\<close> is false.
\<close>

definition dateLt :: "date option \<Rightarrow> date option \<Rightarrow> bool" where
  "dateLt a b = (case a of None \<Rightarrow> False | Some x \<Rightarrow> (case b of None \<Rightarrow> False | Some y \<Rightarrow> x < y))"

definition dateLe :: "date option \<Rightarrow> date option \<Rightarrow> bool" where
  "dateLe a b = (case a of None \<Rightarrow> False | Some x \<Rightarrow> (case b of None \<Rightarrow> False | Some y \<Rightarrow> x \<le> y))"

definition dateGt :: "date option \<Rightarrow> date option \<Rightarrow> bool" where
  "dateGt a b = dateLt b a"

definition dateGe :: "date option \<Rightarrow> date option \<Rightarrow> bool" where
  "dateGe a b = dateLe b a"

text \<open>\<^verbatim>\<open>event.buffer?.before || 0\<close> and \<^verbatim>\<open>event.buffer?.after || 0\<close>.\<close>

definition bufferBefore :: "CalendarEvent \<Rightarrow> int" where
  "bufferBefore event = (case buffer event of None \<Rightarrow> 0 | Some b \<Rightarrow> before b)"

definition bufferAfter :: "CalendarEvent \<Rightarrow> int" where
  "bufferAfter event = (case buffer event of None \<Rightarrow> 0 | Some b \<Rightarrow> after b)"

section \<open>listAvailable30MinuteSlots\<close>

text \<open>
  The callback of \<^verbatim>\<open>events.some\<close> in the enumerator: the three-way test of one
  event against the sub-slot from \<open>currentSlotStart\<close> to \<open>currentSlotEnd\<close>. \<open>eventStart\<close>
  and \<open>eventEnd\<close> are new Dates that a large buffer can make invalid.
\<close>

definition hasConflictWith :: "date \<Rightarrow> date \<Rightarrow> CalendarEvent \<Rightarrow> bool" where
  "hasConflictWith currentSlotStart currentSlotEnd event =
     (let eventStart = timeClip (startE event - bufferBefore event * 60 * 1000);
          eventEnd = timeClip (endE event + bufferAfter event * 60 * 1000)
      in (dateGe (Some currentSlotStart) eventStart \<and> dateLt (Some currentSlotStart) eventEnd) \<or>
         (dateGt (Some currentSlotEnd) eventStart \<and> dateLe (Some currentSlotEnd) eventEnd) \<or>
         (dateLe (Some currentSlotStart) eventStart \<and> dateGe (Some currentSlotEnd) eventEnd))"

definition hasConflict :: "CalendarEvent list \<Rightarrow> date \<Rightarrow> date \<Rightarrow> bool" where
  "hasConflict events currentSlotStart currentSlotEnd =
     list_ex (hasConflictWith currentSlotStart currentSlotEnd) events"

text \<open>
  The \<^verbatim>\<open>while (currentSlotStart < rangeEndTime)\<close> loop; the result is the list of
  the slots it pushes, in the order of the pushes. \<^verbatim>\<open>break\<close> ends the walk.
\<close>

function slotWalk ::
  "CalendarEvent list \<Rightarrow> date \<Rightarrow> date \<Rightarrow> date \<Rightarrow> date \<Rightarrow> CalendarSlot list" where
  "slotWalk events startRange endRange rangeEndTime currentSlotStart =
     (if currentSlotStart < rangeEndTime then
        (let currentSlotEnd = currentSlotStart + 30 * 60 * 1000 in
         if currentSlotStart < startRange \<or> currentSlotEnd > endRange then []
         else (if \<not> hasConflict events currentSlotStart currentSlotEnd
               then [\<lparr>start = currentSlotStart, durationM = 30\<rparr>] else [])
              @ slotWalk events startRange endRange rangeEndTime currentSlotEnd)
      else [])"
  by pat_completeness auto
termination
  by (relation "measure (\<lambda>(events, startRange, endRange, rangeEndTime, currentSlotStart).
        nat (rangeEndTime - currentSlotStart))") auto

text \<open>The two instants the callback of \<^verbatim>\<open>range.forEach\<close> builds for one entry.\<close>

definition blockStart :: "date \<Rightarrow> TimeOfDay \<Rightarrow> date" where
  "blockStart currentDate r = dateUTC currentDate (hours r) (minutes r)"

definition blockEnd :: "date \<Rightarrow> TimeOfDay \<Rightarrow> date" where
  "blockEnd currentDate r = dateUTC currentDate (hours r + 30) (minutes r)"

text \<open>The body of the callback of \<^verbatim>\<open>dayAvailability.range.forEach\<close>.\<close>

definition entrySlots ::
  "CalendarEvent list \<Rightarrow> date \<Rightarrow> date \<Rightarrow> date \<Rightarrow> TimeOfDay \<Rightarrow> CalendarSlot list" where
  "entrySlots events startRange endRange currentDate r =
     slotWalk events startRange endRange (blockEnd currentDate r) (blockStart currentDate r)"

text \<open>
  The body of the day loop: look the weekday up with \<^verbatim>\<open>find\<close> (the first entry that
  matches), \<^verbatim>\<open>continue\<close> when there is none, else walk every entry of its range.
\<close>

definition daySlots ::
  "CalendarAvailability \<Rightarrow> CalendarEvent list \<Rightarrow> date \<Rightarrow> date \<Rightarrow> date \<Rightarrow> CalendarSlot list" where
  "daySlots availability events startRange endRange currentDate =
     (case find (\<lambda>day. weekday day = getUTCDay currentDate) (includeE availability) of
        None \<Rightarrow> []
      | Some dayAvailability \<Rightarrow>
          concat (map (entrySlots events startRange endRange currentDate)
                      (rangeT dayAvailability)))"

text \<open>The \<^verbatim>\<open>for\<close> loop over the days, from \<open>currentDate\<close> on.\<close>

function dayLoop ::
  "CalendarAvailability \<Rightarrow> CalendarEvent list \<Rightarrow> date \<Rightarrow> date \<Rightarrow> date \<Rightarrow> CalendarSlot list" where
  "dayLoop availability events startRange endRange currentDate =
     (if currentDate \<le> endRange then
        daySlots availability events startRange endRange currentDate
        @ dayLoop availability events startRange endRange (nextUTCDate currentDate)
      else [])"
  by pat_completeness auto
termination
  by (relation "measure (\<lambda>(availability, events, startRange, endRange, currentDate).
        nat (endRange - currentDate + 1))") (auto simp: nextUTCDate_def msPerDay_def)

definition listAvailable30MinuteSlots ::
  "CalendarAvailability \<Rightarrow> CalendarEvent list \<Rightarrow> date \<times> date \<Rightarrow> CalendarSlot list" where
  "listAvailable30MinuteSlots availability events r =
     (case r of (startRange, endRange) \<Rightarrow>
        dayLoop availability events startRange endRange startRange)"

section \<open>isSlotAvailableWithBuffer\<close>

text \<open>\<^verbatim>\<open>new Date(start.getTime() + durationM * 60000)\<close>.\<close>

definition calculateSlotEndTime :: "date \<Rightarrow> int \<Rightarrow> date" where
  "calculateSlotEndTime startD durM = startD + durM * 60000"

text \<open>
  \<^verbatim>\<open>d.setHours(h, m, 0, 0)\<close> works in local time. The time zone of the process is a
  parameter of the model, given by the two offsets the language definition uses:
  \<open>offsetAtUTC z t\<close> is the offset of local time from UTC, in milliseconds, at the UTC
  instant \<open>t\<close> (\<^verbatim>\<open>LocalTZA(t, true)\<close>), and \<open>offsetAtLocal z t\<close> is the offset at the
  local time value \<open>t\<close> (\<^verbatim>\<open>LocalTZA(t, false)\<close>); they differ around a change of
  daylight saving time. \<open>setHours\<close> turns the instant into local time, replaces the
  time within the local day, and turns the result back into UTC.
\<close>

record TimeZone =
  offsetAtUTC :: "int \<Rightarrow> int"
  offsetAtLocal :: "int \<Rightarrow> int"

definition setHours :: "TimeZone \<Rightarrow> date \<Rightarrow> int \<Rightarrow> int \<Rightarrow> date" where
  "setHours z d h m =
     (let t = d + offsetAtUTC z d;
          local = (t div msPerDay) * msPerDay + h * msPerHour + m * msPerMinute
      in local - offsetAtLocal z local)"

text \<open>A process whose time zone is UTC.\<close>

definition utcZone :: TimeZone where
  "utcZone = \<lparr>offsetAtUTC = (\<lambda>t. 0), offsetAtLocal = (\<lambda>t. 0)\<rparr>"

text \<open>\<^verbatim>\<open>d.setUTCHours(h, m, 0, 0)\<close>.\<close>

definition setUTCHours :: "date \<Rightarrow> int \<Rightarrow> int \<Rightarrow> date" where
  "setUTCHours d h m = utcDay d * msPerDay + h * msPerHour + m * msPerMinute"

definition isSlotInRange :: "TimeZone \<Rightarrow> date \<Rightarrow> date \<Rightarrow> TimeOfDay list \<Rightarrow> bool" where
  "isSlotInRange z slotStart slotEnd ranges =
     list_ex (\<lambda>r.
        let rangeStart = setHours z slotStart (hours r) (minutes r);
            rangeEnd = rangeStart + 24 * 60 * 60 * 1000
        in slotStart \<ge> rangeStart \<and> slotEnd \<le> rangeEnd) ranges"

definition isSlotWithinAvailability ::
  "TimeZone \<Rightarrow> date \<Rightarrow> date \<Rightarrow> CalendarAvailability \<Rightarrow> bool" where
  "isSlotWithinAvailability z slotStart slotEnd availability =
     list_ex (\<lambda>entry.
        let isCorrectWeekday = (weekday entry = getUTCDay slotStart)
        in isCorrectWeekday \<and> isSlotInRange z slotStart slotEnd (rangeT entry))
       (includeE availability)"

text \<open>
  \<^verbatim>\<open>new Date(event.start.getTime() - bufferBefore * 60 * 1000)\<close> and
  \<^verbatim>\<open>new Date(event.end.getTime() + bufferAfter * 60 * 1000)\<close>: Invalid Dates when the
  buffer carries them out of range.
\<close>

definition calculateEventStartWithBuffer :: "CalendarEvent \<Rightarrow> date option" where
  "calculateEventStartWithBuffer event = timeClip (startE event - bufferBefore event * 60 * 1000)"

definition calculateEventEndWithBuffer :: "CalendarEvent \<Rightarrow> date option" where
  "calculateEventEndWithBuffer event = timeClip (endE event + bufferAfter event * 60 * 1000)"

text \<open>The callback of \<^verbatim>\<open>events.some\<close> in \<^verbatim>\<open>isSlotConflictedWithEvents\<close>.\<close>

definition isSlotConflictedWith :: "date \<Rightarrow> date \<Rightarrow> CalendarEvent \<Rightarrow> bool" where
  "isSlotConflictedWith slotStart slotEnd event =
     (let eventStartWithBuffer = calculateEventStartWithBuffer event;
          eventEndWithBuffer = calculateEventEndWithBuffer event
      in dateLt (Some slotStart) eventEndWithBuffer \<and> dateGt (Some slotEnd) eventStartWithBuffer)"

definition isSlotConflictedWithEvents :: "date \<Rightarrow> date \<Rightarrow> CalendarEvent list \<Rightarrow> bool" where
  "isSlotConflictedWithEvents slotStart slotEnd events =
     list_ex (isSlotConflictedWith slotStart slotEnd) events"

definition isSlotAvailableWithBuffer ::
  "TimeZone \<Rightarrow> CalendarAvailability \<Rightarrow> CalendarEvent list \<Rightarrow> CalendarSlot \<Rightarrow> bool" where
  "isSlotAvailableWithBuffer z availability events slot =
     (let slotStart = start slot;
          slotEnd = calculateSlotEndTime slotStart (durationM slot)
      in if \<not> isSlotWithinAvailability z slotStart slotEnd availability then False
         else if isSlotConflictedWithEvents slotStart slotEnd events then False
         else True)"

section \<open>isSlotAvailableWithEvents\<close>

text \<open>
  Reading a property of \<^verbatim>\<open>undefined\<close> throws a \<^verbatim>\<open>TypeError\<close>, and so does \<^verbatim>\<open>reduce\<close>
  on an empty array without an initial value. A function that can throw returns
  \<open>error + 'a\<close>, with \<open>Inl\<close> for the exception.
\<close>

datatype error = TypeError

text \<open>
  \<^verbatim>\<open>isSlotWithinAvailability\<close> of the variant without buffers: \<^verbatim>\<open>find\<close> the entry of
  the weekday, destructure \<^verbatim>\<open>[startRange, endRange] = range\<close>, and compare with the two
  instants built by \<^verbatim>\<open>setUTCHours\<close>. With fewer than two values in the range,
  \<^verbatim>\<open>startRange.hours\<close> or \<^verbatim>\<open>endRange.hours\<close> is read from \<^verbatim>\<open>undefined\<close>.
\<close>

definition isSlotWithinAvailabilityE ::
  "date \<Rightarrow> date \<Rightarrow> CalendarAvailability \<Rightarrow> error + bool" where
  "isSlotWithinAvailabilityE slotStart slotEnd availability =
     (let slotWeekday = getUTCDay slotStart in
      case find (\<lambda>avail. weekday avail = slotWeekday) (includeE availability) of
        None \<Rightarrow> Inr False
      | Some availabilityForDay \<Rightarrow>
          (case rangeT availabilityForDay of
             startRange # endRange # _ \<Rightarrow>
               (let availableStart = setUTCHours slotStart (hours startRange) (minutes startRange);
                    availableEnd = setUTCHours slotStart (hours endRange) (minutes endRange)
                in Inr (slotStart \<ge> availableStart \<and> slotEnd \<le> availableEnd))
           | _ \<Rightarrow> Inl TypeError))"

definition isSlotConflictedWithEventsE :: "date \<Rightarrow> date \<Rightarrow> CalendarEvent list \<Rightarrow> bool" where
  "isSlotConflictedWithEventsE slotStart slotEnd events =
     list_ex (\<lambda>event.
        let eventStart = startE event; eventEnd = endE event
        in slotStart < eventEnd \<and> slotEnd > eventStart) events"

definition isSlotAvailableWithEvents ::
  "CalendarAvailability \<Rightarrow> CalendarEvent list \<Rightarrow> CalendarSlot \<Rightarrow> error + bool" where
  "isSlotAvailableWithEvents availability events slot =
     (let slotStart = start slot;
          slotEnd = calculateSlotEndTime slotStart (durationM slot)
      in case isSlotWithinAvailabilityE slotStart slotEnd availability of
           Inl e \<Rightarrow> Inl e
         | Inr within \<Rightarrow>
             if \<not> within then Inr False
             else if isSlotConflictedWithEventsE slotStart slotEnd events then Inr False
             else Inr True)"

section \<open>intersectRanges\<close>

definition minutesOf :: "TimeOfDay \<Rightarrow> int" where
  "minutesOf t = hours t * 60 + minutes t"

text \<open>
  The two-pointer loop, with the indices \<open>i\<close> and \<open>j\<close> and the array \<open>result\<close> as
  the source has them. \<open>i\<close> and \<open>j\<close> stay even, so \<^verbatim>\<open>rangeA[i]\<close> and \<^verbatim>\<open>rangeB[j]\<close>
  exist inside the loop; \<^verbatim>\<open>rangeA[i + 1]\<close> or \<^verbatim>\<open>rangeB[j + 1]\<close> is \<^verbatim>\<open>undefined\<close> at the
  end of an array of odd length, and \<^verbatim>\<open>endA.hours\<close> or \<^verbatim>\<open>endB.hours\<close> then throws.
\<close>

function intersectLoop ::
  "TimeOfDay list \<Rightarrow> TimeOfDay list \<Rightarrow> nat \<Rightarrow> nat \<Rightarrow> TimeOfDay list \<Rightarrow> error + TimeOfDay list" where
  "intersectLoop rangeA rangeB i j result =
     (if i < length rangeA \<and> j < length rangeB then
        (if i + 1 < length rangeA \<and> j + 1 < length rangeB then
           (let startA = rangeA ! i; endA = rangeA ! (i + 1);
                startB = rangeB ! j; endB = rangeB ! (j + 1);
                maxStart = (if minutesOf startA > minutesOf startB then startA else startB);
                minEnd = (if minutesOf endA < minutesOf endB then endA else endB);
                result' = (if minutesOf maxStart < minutesOf minEnd
                           then result @ [maxStart, minEnd] else result)
            in if minutesOf endA < minutesOf endB
               then intersectLoop rangeA rangeB (i + 2) j result'
               else intersectLoop rangeA rangeB i (j + 2) result')
         else Inl TypeError)
      else Inr result)"
  by pat_completeness auto
termination
  by (relation "measure (\<lambda>(rangeA, rangeB, i, j, result).
        (length rangeA - i) + (length rangeB - j))") auto

definition intersectRanges :: "TimeOfDay list \<Rightarrow> TimeOfDay list \<Rightarrow> error + TimeOfDay list" where
  "intersectRanges rangeA rangeB = intersectLoop rangeA rangeB 0 0 []"

section \<open>listAvailable30MinuteSlotsMultiplePerson\<close>

record Attendee =
  availability :: CalendarAvailability
  events :: "CalendarEvent list"

text \<open>The callback of the inner \<^verbatim>\<open>events.every\<close>: the slot does not overlap the event.\<close>

definition noOverlapWith :: "date \<Rightarrow> date \<Rightarrow> CalendarEvent \<Rightarrow> bool" where
  "noOverlapWith currentSlotStart currentSlotEnd event =
     (let eventStart = timeClip (startE event - bufferBefore event * 60 * 1000);
          eventEnd = timeClip (endE event + bufferAfter event * 60 * 1000)
      in dateLe (Some currentSlotEnd) eventStart \<or> dateGe (Some currentSlotStart) eventEnd)"

definition isAvailableForAll :: "Attendee list \<Rightarrow> date \<Rightarrow> date \<Rightarrow> bool" where
  "isAvailableForAll attendees currentSlotStart currentSlotEnd =
     list_all (\<lambda>att. list_all (noOverlapWith currentSlotStart currentSlotEnd) (events att))
       attendees"

text \<open>The \<^verbatim>\<open>while (currentSlotStart < rangeEndTime && currentSlotStart < endRange)\<close> loop.\<close>

function multiSlotWalk :: "Attendee list \<Rightarrow> date \<Rightarrow> date \<Rightarrow> date \<Rightarrow> CalendarSlot list" where
  "multiSlotWalk attendees endRange rangeEndTime currentSlotStart =
     (if currentSlotStart < rangeEndTime \<and> currentSlotStart < endRange then
        (let currentSlotEnd = currentSlotStart + 30 * 60 * 1000 in
         (if isAvailableForAll attendees currentSlotStart currentSlotEnd
          then [\<lparr>start = currentSlotStart, durationM = 30\<rparr>] else [])
         @ multiSlotWalk attendees endRange rangeEndTime currentSlotEnd)
      else [])"
  by pat_completeness auto
termination
  by (relation "measure (\<lambda>(attendees, endRange, rangeEndTime, currentSlotStart).
        nat (rangeEndTime - currentSlotStart))") auto

text \<open>The \<^verbatim>\<open>for (let i = 0; i < commonRange.length - 1; i += 2)\<close> loop over the pairs.\<close>

function pairLoop ::
  "Attendee list \<Rightarrow> date \<Rightarrow> date \<Rightarrow> TimeOfDay list \<Rightarrow> nat \<Rightarrow> CalendarSlot list" where
  "pairLoop attendees endRange currentDate commonRange i =
     (if int i < int (length commonRange) - 1 then
        (let rangeStart = commonRange ! i;
             rangeEnd = commonRange ! (i + 1);
             currentSlotStart = dateUTC currentDate (hours rangeStart) (minutes rangeStart);
             rangeEndTime = dateUTC currentDate (hours rangeEnd) (minutes rangeEnd)
         in multiSlotWalk attendees endRange rangeEndTime currentSlotStart
            @ pairLoop attendees endRange currentDate commonRange (i + 2))
      else [])"
  by pat_completeness auto
termination
  by (relation "measure (\<lambda>(attendees, endRange, currentDate, commonRange, i).
        length commonRange - i)") auto

text \<open>
  \<^verbatim>\<open>attendees.map(...).filter(Boolean)\<close>: the range of the entry each attendee has for
  the weekday; an attendee without such an entry contributes nothing (an array, even an
  empty one, is truthy and stays).
\<close>

definition commonAvailableRanges :: "Attendee list \<Rightarrow> int \<Rightarrow> TimeOfDay list list" where
  "commonAvailableRanges attendees currentWeekday =
     List.map_filter
       (\<lambda>att. map_option rangeT
          (find (\<lambda>day. weekday day = currentWeekday) (includeE (availability att))))
       attendees"

text \<open>
  \<^verbatim>\<open>reduce((acc, curr) => acc ? intersectRanges(acc, curr) : curr)\<close> without an initial
  value: it throws on the empty array, and starts from the first element otherwise
  (\<open>acc\<close> is an array, so always truthy).
\<close>

fun reduceRanges :: "TimeOfDay list list \<Rightarrow> error + TimeOfDay list" where
  "reduceRanges [] = Inl TypeError"
| "reduceRanges (x # xs) =
     foldl (\<lambda>acc curr. case acc of Inl e \<Rightarrow> Inl e | Inr a \<Rightarrow> intersectRanges a curr)
       (Inr x) xs"

text \<open>
  The body of the day loop. \<^verbatim>\<open>if (!commonRange) continue\<close> never fires: the result of
  \<^verbatim>\<open>reduce\<close> is an array.
\<close>

definition multiDaySlots :: "Attendee list \<Rightarrow> date \<Rightarrow> date \<Rightarrow> error + CalendarSlot list" where
  "multiDaySlots attendees endRange currentDate =
     (let currentWeekday = getUTCDay currentDate;
          common = commonAvailableRanges attendees currentWeekday
      in if length common \<noteq> length attendees then Inr []
         else case reduceRanges common of
                Inl e \<Rightarrow> Inl e
              | Inr commonRange \<Rightarrow> Inr (pairLoop attendees endRange currentDate commonRange 0))"

function multiDayLoop :: "Attendee list \<Rightarrow> date \<Rightarrow> date \<Rightarrow> error + CalendarSlot list" where
  "multiDayLoop attendees endRange currentDate =
     (if currentDate \<le> endRange then
        (case multiDaySlots attendees endRange currentDate of
           Inl e \<Rightarrow> Inl e
         | Inr slots \<Rightarrow>
             (case multiDayLoop attendees endRange (nextUTCDate currentDate) of
                Inl e \<Rightarrow> Inl e
              | Inr rest \<Rightarrow> Inr (slots @ rest)))
      else Inr [])"
  by pat_completeness auto
termination
  by (relation "measure (\<lambda>(attendees, endRange, currentDate).
        nat (endRange - currentDate + 1))") (auto simp: nextUTCDate_def msPerDay_def)

definition listAvailable30MinuteSlotsMultiplePerson ::
  "Attendee list \<Rightarrow> date \<times> date \<Rightarrow> error + CalendarSlot list" where
  "listAvailable30MinuteSlotsMultiplePerson attendees r =
     (case r of (startRange, endRange) \<Rightarrow> multiDayLoop attendees endRange startRange)"

section \<open>Well-formed data\<close>

text \<open>The data model's ranges: hours in 0..23 and minutes in 0..59.\<close>

definition validTimeOfDay :: "TimeOfDay \<Rightarrow> bool" where
  "validTimeOfDay t = (0 \<le> hours t \<and> hours t \<le> 23 \<and> 0 \<le> minutes t \<and> minutes t \<le> 59)"

definition validAvailability :: "CalendarAvailability \<Rightarrow> bool" where
  "validAvailability a =
     list_all (\<lambda>entry. list_all validTimeOfDay (rangeT entry)) (includeE a)"

text \<open>An event of the data model: \<open>start < end\<close> and buffers that are not negative.\<close>

definition validEvent :: "CalendarEvent \<Rightarrow> bool" where
  "validEvent event = (startE event < endE event \<and> 0 \<le> bufferBefore event \<and> 0 \<le> bufferAfter event)"



section \<open>Example data\<close>

text \<open>2024-01-07T00:00:00Z, a Sunday.\<close>

definition sunday :: date where
  "sunday = 1704585600000"

definition nine :: TimeOfDay where "nine = \<lparr>hours = 9, minutes = 0\<rparr>"
definition ten :: TimeOfDay where "ten = \<lparr>hours = 10, minutes = 0\<rparr>"
definition eleven :: TimeOfDay where "eleven = \<lparr>hours = 11, minutes = 0\<rparr>"
definition twelve :: TimeOfDay where "twelve = \<lparr>hours = 12, minutes = 0\<rparr>"
definition thirteen :: TimeOfDay where "thirteen = \<lparr>hours = 13, minutes = 0\<rparr>"

text \<open>Free on Sundays from 09:00 to 10:00.\<close>

definition sundayNineToTen :: CalendarAvailability where
  "sundayNineToTen = \<lparr>includeE = [\<lparr>weekday = 0, rangeT = [nine, ten]\<rparr>]\<rparr>"

text \<open>An availability whose Sunday entry has the single value 09:00.\<close>

definition sundayNine :: CalendarAvailability where
  "sundayNine = \<lparr>includeE = [\<lparr>weekday = 0, rangeT = [nine]\<rparr>]\<rparr>"

text \<open>Sunday entries with the ranges 12:00, 13:00 and 12:00, 13:00, 09:00.\<close>

definition sundayAfternoon :: CalendarAvailability where
  "sundayAfternoon = \<lparr>includeE = [\<lparr>weekday = 0, rangeT = [twelve, thirteen]\<rparr>]\<rparr>"

definition sundayAfternoonNine :: CalendarAvailability where
  "sundayAfternoonNine = \<lparr>includeE = [\<lparr>weekday = 0, rangeT = [twelve, thirteen, nine]\<rparr>]\<rparr>"

text \<open>An event on that Sunday from 10:00 to 11:00 with 15 minutes of buffer on each side.\<close>

definition tenToEleven :: CalendarEvent where
  "tenToEleven = \<lparr>startE = dateUTC sunday 10 0, endE = dateUTC sunday 11 0,
                   buffer = Some \<lparr>before = 15, after = 15\<rparr>\<rparr>"


definition slot30 :: "date \<Rightarrow> CalendarSlot" where
  "slot30 t = \<lparr>start = t, durationM = 30\<rparr>"

section \<open>Pair-sequences\<close>

text \<open>
  A range read as the data model reads it: consecutive \<open>(start, end)\<close> pairs; a last
  value without a partner belongs to no pair.
\<close>

fun pairsOf :: "'a list \<Rightarrow> ('a \<times> 'a) list" where
  "pairsOf (s # e # rest) = (s, e) # pairsOf rest"
| "pairsOf _ = []"

text \<open>
  A valid pair-sequence: even length, every pair ascending (\<open>start < end\<close> in minutes
  since midnight), and every pair starting no earlier than the pair before it ends, so
  that the pairs do not overlap and are sorted by start.
\<close>

fun validPairs :: "TimeOfDay list \<Rightarrow> bool" where
  "validPairs [] = True"
| "validPairs [s] = False"
| "validPairs (s # e # rest) =
     (minutesOf s < minutesOf e \<and>
      (case rest of [] \<Rightarrow> True | s' # _ \<Rightarrow> minutesOf e \<le> minutesOf s') \<and>
      validPairs rest)"

text \<open>The pairs of a range as minutes since midnight.\<close>

definition minutePairs :: "TimeOfDay list \<Rightarrow> (int \<times> int) set" where
  "minutePairs r = set (pairsOf (map minutesOf r))"

text \<open>
  The loop of \<open>intersectLoop\<close> seen on what is left of the two arrays from \<open>i\<close> and
  \<open>j\<close> on; it returns what the loop appends to \<open>result\<close>. This view is proved equal to
  the loop (lemma \<open>intersectLoop_suffix\<close>) and carries the inductions.
\<close>

fun intersectRest :: "TimeOfDay list \<Rightarrow> TimeOfDay list \<Rightarrow> error + TimeOfDay list" where
  "intersectRest (startA # endA # restA) (startB # endB # restB) =
     (let maxStart = (if minutesOf startA > minutesOf startB then startA else startB);
          minEnd = (if minutesOf endA < minutesOf endB then endA else endB);
          out = (if minutesOf maxStart < minutesOf minEnd then [maxStart, minEnd] else [])
      in map_sum id ((@) out)
           (if minutesOf endA < minutesOf endB
            then intersectRest restA (startB # endB # restB)
            else intersectRest (startA # endA # restA) restB))"
| "intersectRest [] restB = Inr []"
| "intersectRest restA [] = Inr []"
| "intersectRest restA restB = Inl TypeError"

text \<open>
  The intersection of two sets of intervals: the common part of every interval of the
  one with every interval of the other, where it is not empty.
\<close>

definition overlaps :: "(int \<times> int) set \<Rightarrow> (int \<times> int) set \<Rightarrow> (int \<times> int) set" where
  "overlaps P Q =
     {(max sa sb, min ea eb) | sa ea sb eb.
        (sa, ea) \<in> P \<and> (sb, eb) \<in> Q \<and> max sa sb < min ea eb}"

section \<open>Date objects in a store\<close>

text \<open>
  The functions above compute with time values. To speak about which Date object a
  method call changes, the same code is modelled once more over a store of Date objects:
  a Date is a reference (an address), the store holds the time value of every Date
  object allocated so far (\<open>None\<close> for an Invalid Date), \<^verbatim>\<open>new Date(...)\<close> allocates the
  next address, and a setter overwrites the cell of its receiver. Arrays and plain
  objects of the input (availability, ranges, event and attendee lists, the slot) are
  only read by the source, through \<^verbatim>\<open>find\<close>, \<^verbatim>\<open>some\<close>, \<^verbatim>\<open>every\<close>, \<^verbatim>\<open>map\<close>, \<^verbatim>\<open>filter\<close>,
  \<^verbatim>\<open>reduce\<close>, \<^verbatim>\<open>forEach\<close>, destructuring and indexing, and no property or element of
  them is assigned; they stay values, whose Date-valued properties are references. A
  loop over the store returns an \<open>option\<close>: \<open>None\<close> stands for a loop that does not end.
\<close>

type_synonym ref = nat
type_synonym store = "int option list"

text \<open>\<^verbatim>\<open>new Date(v)\<close> for a number \<open>v\<close> (\<open>None\<close> is \<^verbatim>\<open>NaN\<close>): a new object at the next address.\<close>

definition newDate :: "int option \<Rightarrow> store \<Rightarrow> ref \<times> store" where
  "newDate v h = (length h, h @ [Option.bind v timeClip])"

text \<open>\<^verbatim>\<open>d.getTime()\<close>; also what a comparison, a getter or \<^verbatim>\<open>new Date(d)\<close> reads of \<open>d\<close>.\<close>

definition getTime :: "store \<Rightarrow> ref \<Rightarrow> int option" where
  "getTime h d = h ! d"

text \<open>What a setter does to its receiver \<open>d\<close>: the cell of \<open>d\<close> gets the new time value.\<close>

definition setTime :: "ref \<Rightarrow> int option \<Rightarrow> store \<Rightarrow> store" where
  "setTime d v h = h[d := Option.bind v timeClip]"

record EventObj =
  startRef :: ref
  endRef :: ref
  bufferOf :: "Buffer option"

record SlotObj =
  slotStartRef :: ref
  slotDurationM :: int

record AttendeeObj =
  availabilityOf :: CalendarAvailability
  eventsOf :: "EventObj list"

definition bufferBeforeOf :: "EventObj \<Rightarrow> int" where
  "bufferBeforeOf event = (case bufferOf event of None \<Rightarrow> 0 | Some b \<Rightarrow> before b)"

definition bufferAfterOf :: "EventObj \<Rightarrow> int" where
  "bufferAfterOf event = (case bufferOf event of None \<Rightarrow> 0 | Some b \<Rightarrow> after b)"

text \<open>\<^verbatim>\<open>find(day => day.weekday === w)\<close> where \<open>w\<close> is the weekday of a Date that may be invalid.\<close>

definition findWeekday :: "int option \<Rightarrow> CalendarAvailability \<Rightarrow> AvailabilityEntry option" where
  "findWeekday w avail = find (\<lambda>day. Some (weekday day) = w) (includeE avail)"

text \<open>
  The slots hold Dates allocated after the store \<open>h\<close> and present in the store \<open>h'\<close>,
  a later one for every later slot.
\<close>

definition newSlotDates :: "store \<Rightarrow> store \<Rightarrow> SlotObj list \<Rightarrow> bool" where
  "newSlotDates h h' slots =
     ((\<forall>s \<in> set slots. length h \<le> slotStartRef s \<and> slotStartRef s < length h') \<and>
      sorted_wrt (<) (map slotStartRef slots))"

subsection \<open>listAvailable30MinuteSlots over the store\<close>

text \<open>
  \<^verbatim>\<open>events.some(...)\<close> of the enumerator: every call of the callback allocates
  \<open>eventStart\<close> and \<open>eventEnd\<close>, and \<^verbatim>\<open>some\<close> stops at the first event that conflicts.
\<close>

fun hasConflictS :: "EventObj list \<Rightarrow> ref \<Rightarrow> ref \<Rightarrow> store \<Rightarrow> bool \<times> store" where
  "hasConflictS [] currentSlotStart currentSlotEnd h = (False, h)"
| "hasConflictS (event # rest) currentSlotStart currentSlotEnd h =
     (case newDate (map_option (\<lambda>t. t - bufferBeforeOf event * 60 * 1000)
                      (getTime h (startRef event))) h of
        (eventStart, h1) \<Rightarrow>
     (case newDate (map_option (\<lambda>t. t + bufferAfterOf event * 60 * 1000)
                      (getTime h1 (endRef event))) h1 of
        (eventEnd, h2) \<Rightarrow>
     if (dateGe (getTime h2 currentSlotStart) (getTime h2 eventStart) \<and>
         dateLt (getTime h2 currentSlotStart) (getTime h2 eventEnd)) \<or>
        (dateGt (getTime h2 currentSlotEnd) (getTime h2 eventStart) \<and>
         dateLe (getTime h2 currentSlotEnd) (getTime h2 eventEnd)) \<or>
        (dateLe (getTime h2 currentSlotStart) (getTime h2 eventStart) \<and>
         dateGe (getTime h2 currentSlotEnd) (getTime h2 eventEnd))
     then (True, h2)
     else hasConflictS rest currentSlotStart currentSlotEnd h2))"

text \<open>
  The \<^verbatim>\<open>while\<close> loop. \<open>currentSlotEnd\<close> is a new Date, the slot pushed holds
  \<^verbatim>\<open>new Date(currentSlotStart)\<close>, and \<^verbatim>\<open>currentSlotStart = currentSlotEnd\<close> rebinds the
  variable to the object allocated in this iteration.
\<close>

partial_function (option) slotWalkS ::
  "EventObj list \<Rightarrow> ref \<Rightarrow> ref \<Rightarrow> ref \<Rightarrow> ref \<Rightarrow> store \<Rightarrow> (SlotObj list \<times> store) option" where
  "slotWalkS evs startRange endRange rangeEndTime currentSlotStart h =
     (if dateLt (getTime h currentSlotStart) (getTime h rangeEndTime) then
        (case newDate (map_option (\<lambda>t. t + 30 * 60 * 1000) (getTime h currentSlotStart)) h of
           (currentSlotEnd, h1) \<Rightarrow>
        if dateLt (getTime h1 currentSlotStart) (getTime h1 startRange) \<or>
           dateGt (getTime h1 currentSlotEnd) (getTime h1 endRange)
        then Some ([], h1)
        else
          (case hasConflictS evs currentSlotStart currentSlotEnd h1 of
             (conflict, h2) \<Rightarrow>
          (case (if \<not> conflict
                 then (case newDate (getTime h2 currentSlotStart) h2 of
                         (d, h3) \<Rightarrow> ([\<lparr>slotStartRef = d, slotDurationM = 30\<rparr>], h3))
                 else ([], h2)) of
             (pushed, h3) \<Rightarrow>
          Option.bind (slotWalkS evs startRange endRange rangeEndTime currentSlotEnd h3)
            (\<lambda>(rest, h4). Some (pushed @ rest, h4)))))
      else Some ([], h))"

text \<open>
  \<^verbatim>\<open>dayAvailability.range.forEach(...)\<close>: for every entry two new Dates,
  \<open>currentSlotStart\<close> and \<open>rangeEndTime\<close>, built by \<^verbatim>\<open>Date.UTC\<close> from the getters of
  \<open>currentDate\<close>, and the walk.
\<close>

fun rangeForEachS ::
  "EventObj list \<Rightarrow> ref \<Rightarrow> ref \<Rightarrow> ref \<Rightarrow> TimeOfDay list \<Rightarrow> store \<Rightarrow> (SlotObj list \<times> store) option" where
  "rangeForEachS evs startRange endRange currentDate [] h = Some ([], h)"
| "rangeForEachS evs startRange endRange currentDate (r # rs) h =
     (case newDate (map_option (\<lambda>t. dateUTC t (hours r) (minutes r)) (getTime h currentDate)) h of
        (currentSlotStart, h1) \<Rightarrow>
     (case newDate (map_option (\<lambda>t. dateUTC t (hours r + 30) (minutes r))
                      (getTime h1 currentDate)) h1 of
        (rangeEndTime, h2) \<Rightarrow>
     (case slotWalkS evs startRange endRange rangeEndTime currentSlotStart h2 of
        None \<Rightarrow> None
      | Some (slots, h3) \<Rightarrow>
          (case rangeForEachS evs startRange endRange currentDate rs h3 of
             None \<Rightarrow> None
           | Some (rest, h4) \<Rightarrow> Some (slots @ rest, h4)))))"

text \<open>
  The \<^verbatim>\<open>for\<close> loop from its test on: the body, then
  \<^verbatim>\<open>currentDate.setUTCDate(currentDate.getUTCDate() + 1)\<close>, which also follows a
  \<^verbatim>\<open>continue\<close>.
\<close>

partial_function (option) dayLoopS ::
  "CalendarAvailability \<Rightarrow> EventObj list \<Rightarrow> ref \<Rightarrow> ref \<Rightarrow> ref \<Rightarrow> store \<Rightarrow>
     (SlotObj list \<times> store) option" where
  "dayLoopS avail evs startRange endRange currentDate h =
     (if dateLe (getTime h currentDate) (getTime h endRange) then
        (case (case findWeekday (map_option getUTCDay (getTime h currentDate)) avail of
                 None \<Rightarrow> Some ([], h)
               | Some dayAvailability \<Rightarrow>
                   rangeForEachS evs startRange endRange currentDate
                     (rangeT dayAvailability) h) of
           None \<Rightarrow> None
         | Some (slots, h1) \<Rightarrow>
             Option.bind
               (dayLoopS avail evs startRange endRange currentDate
                  (setTime currentDate (map_option nextUTCDate (getTime h1 currentDate)) h1))
               (\<lambda>(rest, h2). Some (slots @ rest, h2)))
      else Some ([], h))"

text \<open>The entry point: \<^verbatim>\<open>let currentDate = new Date(startRange)\<close>, then the loop.\<close>

definition listAvailable30MinuteSlotsS ::
  "CalendarAvailability \<Rightarrow> EventObj list \<Rightarrow> ref \<times> ref \<Rightarrow> store \<Rightarrow> (SlotObj list \<times> store) option" where
  "listAvailable30MinuteSlotsS avail evs r h =
     (case r of (startRange, endRange) \<Rightarrow>
        (case newDate (getTime h startRange) h of
           (currentDate, h1) \<Rightarrow> dayLoopS avail evs startRange endRange currentDate h1))"

declare slotWalkS.simps [code]
declare dayLoopS.simps [code]

subsection \<open>isSlotAvailable over the store\<close>

text \<open>
  \<^verbatim>\<open>d.getMinutes()\<close> and \<^verbatim>\<open>d.setMinutes(m)\<close> work in local time: the minute of the local
  hour is read, or replaced while hour, second and millisecond stay.
\<close>

definition getMinutes :: "TimeZone \<Rightarrow> date \<Rightarrow> int" where
  "getMinutes z d = ((d + offsetAtUTC z d) mod msPerHour) div msPerMinute"

definition setMinutes :: "TimeZone \<Rightarrow> date \<Rightarrow> int \<Rightarrow> date" where
  "setMinutes z d m =
     (let t = d + offsetAtUTC z d;
          local = t - ((t mod msPerHour) div msPerMinute) * msPerMinute + m * msPerMinute
      in local - offsetAtLocal z local)"

text \<open>
  \<^verbatim>\<open>getAvailabilityTimeRange\<close>: two copies of \<open>date\<close>, each moved by \<^verbatim>\<open>setUTCHours\<close>.
  \<^verbatim>\<open>range[0].hours\<close> and \<^verbatim>\<open>range[1].hours\<close> throw when the element is missing, after the
  copy has been made.
\<close>

definition getAvailabilityTimeRangeS ::
  "ref \<Rightarrow> TimeOfDay list \<Rightarrow> store \<Rightarrow> (error + ref \<times> ref) \<times> store" where
  "getAvailabilityTimeRangeS dateR rng h =
     (case newDate (getTime h dateR) h of
        (startAvailable, h1) \<Rightarrow>
     (case rng of
        [] \<Rightarrow> (Inl TypeError, h1)
      | r0 # rest \<Rightarrow>
          (let h2 = setTime startAvailable
                      (map_option (\<lambda>t. setUTCHours t (hours r0) (minutes r0))
                         (getTime h1 startAvailable)) h1
           in case newDate (getTime h2 dateR) h2 of
                (endAvailable, h3) \<Rightarrow>
              (case rest of
                 [] \<Rightarrow> (Inl TypeError, h3)
               | r1 # others \<Rightarrow>
                   (let h4 = setTime endAvailable
                               (map_option (\<lambda>t. setUTCHours t (hours r1) (minutes r1))
                                  (getTime h3 endAvailable)) h3
                    in (Inr (startAvailable, endAvailable), h4))))))"

text \<open>
  \<^verbatim>\<open>calculateSlotEndTime\<close> of \<^verbatim>\<open>isSlotAvailable\<close>:
  \<^verbatim>\<open>endTime = new Date(start); endTime.setMinutes(endTime.getMinutes() + durationM)\<close>.
\<close>

definition calculateSlotEndTimeLocalS :: "TimeZone \<Rightarrow> ref \<Rightarrow> int \<Rightarrow> store \<Rightarrow> ref \<times> store" where
  "calculateSlotEndTimeLocalS z startR durM h =
     (case newDate (getTime h startR) h of
        (endTime, h1) \<Rightarrow>
          (endTime,
           setTime endTime
             (map_option (\<lambda>t. setMinutes z t (getMinutes z t + durM)) (getTime h1 endTime)) h1))"

definition isSlotAvailableS ::
  "TimeZone \<Rightarrow> CalendarAvailability \<Rightarrow> SlotObj \<Rightarrow> store \<Rightarrow> (error + bool) \<times> store" where
  "isSlotAvailableS z avail slot h =
     (let slotDate = slotStartRef slot;
          slotWeekday = map_option getUTCDay (getTime h slotDate)
      in case findWeekday slotWeekday avail of
           None \<Rightarrow> (Inr False, h)
         | Some availableEntry \<Rightarrow>
             (case getAvailabilityTimeRangeS slotDate (rangeT availableEntry) h of
                (Inl e, h1) \<Rightarrow> (Inl e, h1)
              | (Inr (startAvailable, endAvailable), h1) \<Rightarrow>
                  (case calculateSlotEndTimeLocalS z (slotStartRef slot) (slotDurationM slot) h1 of
                     (slotEnd, h2) \<Rightarrow>
                       (Inr (dateGe (getTime h2 (slotStartRef slot)) (getTime h2 startAvailable) \<and>
                             dateLe (getTime h2 slotEnd) (getTime h2 endAvailable)), h2))))"

subsection \<open>isSlotAvailableWithEvents over the store\<close>

text \<open>\<^verbatim>\<open>new Date(start.getTime() + durationM * 60000)\<close>, as in the two other validators.\<close>

definition calculateSlotEndTimeS :: "ref \<Rightarrow> int \<Rightarrow> store \<Rightarrow> ref \<times> store" where
  "calculateSlotEndTimeS startR durM h =
     newDate (map_option (\<lambda>t. t + durM * 60000) (getTime h startR)) h"

definition isSlotWithinAvailabilityES ::
  "ref \<Rightarrow> ref \<Rightarrow> CalendarAvailability \<Rightarrow> store \<Rightarrow> (error + bool) \<times> store" where
  "isSlotWithinAvailabilityES slotStart slotEnd avail h =
     (let slotWeekday = map_option getUTCDay (getTime h slotStart)
      in case findWeekday slotWeekday avail of
           None \<Rightarrow> (Inr False, h)
         | Some availabilityForDay \<Rightarrow>
             (case newDate (getTime h slotStart) h of
                (availableStart, h1) \<Rightarrow>
             (case rangeT availabilityForDay of
                [] \<Rightarrow> (Inl TypeError, h1)
              | startRange # rest \<Rightarrow>
                  (let h2 = setTime availableStart
                              (map_option (\<lambda>t. setUTCHours t (hours startRange) (minutes startRange))
                                 (getTime h1 availableStart)) h1
                   in case newDate (getTime h2 slotStart) h2 of
                        (availableEnd, h3) \<Rightarrow>
                      (case rest of
                         [] \<Rightarrow> (Inl TypeError, h3)
                       | endRange # others \<Rightarrow>
                           (let h4 = setTime availableEnd
                                       (map_option (\<lambda>t. setUTCHours t (hours endRange) (minutes endRange))
                                          (getTime h3 availableEnd)) h3
                            in (Inr (dateGe (getTime h4 slotStart) (getTime h4 availableStart) \<and>
                                     dateLe (getTime h4 slotEnd) (getTime h4 availableEnd)), h4)))))))"

text \<open>Here \<open>eventStart\<close> and \<open>eventEnd\<close> are the Dates of the event themselves; nothing is allocated.\<close>

definition isSlotConflictedWithEventsES :: "ref \<Rightarrow> ref \<Rightarrow> EventObj list \<Rightarrow> store \<Rightarrow> bool" where
  "isSlotConflictedWithEventsES slotStart slotEnd evs h =
     list_ex (\<lambda>event.
        let eventStart = startRef event;
            eventEnd = endRef event
        in dateLt (getTime h slotStart) (getTime h eventEnd) \<and>
           dateGt (getTime h slotEnd) (getTime h eventStart)) evs"

definition isSlotAvailableWithEventsS ::
  "CalendarAvailability \<Rightarrow> EventObj list \<Rightarrow> SlotObj \<Rightarrow> store \<Rightarrow> (error + bool) \<times> store" where
  "isSlotAvailableWithEventsS avail evs slot h =
     (let slotStart = slotStartRef slot
      in case calculateSlotEndTimeS slotStart (slotDurationM slot) h of
           (slotEnd, h1) \<Rightarrow>
             (case isSlotWithinAvailabilityES slotStart slotEnd avail h1 of
                (Inl e, h2) \<Rightarrow> (Inl e, h2)
              | (Inr within, h2) \<Rightarrow>
                  if \<not> within then (Inr False, h2)
                  else if isSlotConflictedWithEventsES slotStart slotEnd evs h2 then (Inr False, h2)
                  else (Inr True, h2)))"

subsection \<open>isSlotAvailableWithBuffer over the store\<close>

text \<open>
  \<^verbatim>\<open>ranges.some(...)\<close>: every call of the callback copies \<open>slotStart\<close> into \<open>rangeStart\<close>,
  moves the copy by \<^verbatim>\<open>setHours\<close>, and allocates \<open>rangeEnd\<close>.
\<close>

fun isSlotInRangeS :: "TimeZone \<Rightarrow> ref \<Rightarrow> ref \<Rightarrow> TimeOfDay list \<Rightarrow> store \<Rightarrow> bool \<times> store" where
  "isSlotInRangeS z slotStart slotEnd [] h = (False, h)"
| "isSlotInRangeS z slotStart slotEnd (r # rs) h =
     (case newDate (getTime h slotStart) h of
        (rangeStart, h1) \<Rightarrow>
     (let h2 = setTime rangeStart
                 (map_option (\<lambda>t. setHours z t (hours r) (minutes r)) (getTime h1 rangeStart)) h1
      in case newDate (map_option (\<lambda>t. t + 24 * 60 * 60 * 1000) (getTime h2 rangeStart)) h2 of
           (rangeEnd, h3) \<Rightarrow>
             if dateGe (getTime h3 slotStart) (getTime h3 rangeStart) \<and>
                dateLe (getTime h3 slotEnd) (getTime h3 rangeEnd)
             then (True, h3)
             else isSlotInRangeS z slotStart slotEnd rs h3))"

text \<open>\<^verbatim>\<open>availability.include.some(...)\<close>; \<^verbatim>\<open>&&\<close> calls \<^verbatim>\<open>isSlotInRange\<close> only on the right weekday.\<close>

fun includeSomeS ::
  "TimeZone \<Rightarrow> ref \<Rightarrow> ref \<Rightarrow> AvailabilityEntry list \<Rightarrow> store \<Rightarrow> bool \<times> store" where
  "includeSomeS z slotStart slotEnd [] h = (False, h)"
| "includeSomeS z slotStart slotEnd (entry # rest) h =
     (let isCorrectWeekday = (Some (weekday entry) = map_option getUTCDay (getTime h slotStart))
      in case (if isCorrectWeekday then isSlotInRangeS z slotStart slotEnd (rangeT entry) h
               else (False, h)) of
           (found, h1) \<Rightarrow>
             if found then (True, h1) else includeSomeS z slotStart slotEnd rest h1)"

definition isSlotWithinAvailabilityS ::
  "TimeZone \<Rightarrow> ref \<Rightarrow> ref \<Rightarrow> CalendarAvailability \<Rightarrow> store \<Rightarrow> bool \<times> store" where
  "isSlotWithinAvailabilityS z slotStart slotEnd avail h =
     includeSomeS z slotStart slotEnd (includeE avail) h"

definition calculateEventStartWithBufferS :: "EventObj \<Rightarrow> store \<Rightarrow> ref \<times> store" where
  "calculateEventStartWithBufferS event h =
     newDate (map_option (\<lambda>t. t - bufferBeforeOf event * 60 * 1000) (getTime h (startRef event))) h"

definition calculateEventEndWithBufferS :: "EventObj \<Rightarrow> store \<Rightarrow> ref \<times> store" where
  "calculateEventEndWithBufferS event h =
     newDate (map_option (\<lambda>t. t + bufferAfterOf event * 60 * 1000) (getTime h (endRef event))) h"

fun isSlotConflictedWithEventsS :: "ref \<Rightarrow> ref \<Rightarrow> EventObj list \<Rightarrow> store \<Rightarrow> bool \<times> store" where
  "isSlotConflictedWithEventsS slotStart slotEnd [] h = (False, h)"
| "isSlotConflictedWithEventsS slotStart slotEnd (event # rest) h =
     (case calculateEventStartWithBufferS event h of
        (eventStartWithBuffer, h1) \<Rightarrow>
     (case calculateEventEndWithBufferS event h1 of
        (eventEndWithBuffer, h2) \<Rightarrow>
          if dateLt (getTime h2 slotStart) (getTime h2 eventEndWithBuffer) \<and>
             dateGt (getTime h2 slotEnd) (getTime h2 eventStartWithBuffer)
          then (True, h2)
          else isSlotConflictedWithEventsS slotStart slotEnd rest h2))"

definition isSlotAvailableWithBufferS ::
  "TimeZone \<Rightarrow> CalendarAvailability \<Rightarrow> EventObj list \<Rightarrow> SlotObj \<Rightarrow> store \<Rightarrow> bool \<times> store" where
  "isSlotAvailableWithBufferS z avail evs slot h =
     (let slotStart = slotStartRef slot
      in case calculateSlotEndTimeS slotStart (slotDurationM slot) h of
           (slotEnd, h1) \<Rightarrow>
             (case isSlotWithinAvailabilityS z slotStart slotEnd avail h1 of
                (within, h2) \<Rightarrow>
                  if \<not> within then (False, h2)
                  else (case isSlotConflictedWithEventsS slotStart slotEnd evs h2 of
                          (conflicted, h3) \<Rightarrow>
                            if conflicted then (False, h3) else (True, h3))))"

subsection \<open>listAvailable30MinuteSlotsMultiplePerson over the store\<close>

text \<open>The inner \<^verbatim>\<open>events.every(...)\<close>: two new Dates per call, and a stop at the first overlap.\<close>

fun eventsEveryS :: "EventObj list \<Rightarrow> ref \<Rightarrow> ref \<Rightarrow> store \<Rightarrow> bool \<times> store" where
  "eventsEveryS [] currentSlotStart currentSlotEnd h = (True, h)"
| "eventsEveryS (event # rest) currentSlotStart currentSlotEnd h =
     (case newDate (map_option (\<lambda>t. t - bufferBeforeOf event * 60 * 1000)
                      (getTime h (startRef event))) h of
        (eventStart, h1) \<Rightarrow>
     (case newDate (map_option (\<lambda>t. t + bufferAfterOf event * 60 * 1000)
                      (getTime h1 (endRef event))) h1 of
        (eventEnd, h2) \<Rightarrow>
          if dateLe (getTime h2 currentSlotEnd) (getTime h2 eventStart) \<or>
             dateGe (getTime h2 currentSlotStart) (getTime h2 eventEnd)
          then eventsEveryS rest currentSlotStart currentSlotEnd h2
          else (False, h2)))"

text \<open>The outer \<^verbatim>\<open>attendees.every(...)\<close>.\<close>

fun isAvailableForAllS :: "AttendeeObj list \<Rightarrow> ref \<Rightarrow> ref \<Rightarrow> store \<Rightarrow> bool \<times> store" where
  "isAvailableForAllS [] currentSlotStart currentSlotEnd h = (True, h)"
| "isAvailableForAllS (att # rest) currentSlotStart currentSlotEnd h =
     (case eventsEveryS (eventsOf att) currentSlotStart currentSlotEnd h of
        (free, h1) \<Rightarrow>
          if free then isAvailableForAllS rest currentSlotStart currentSlotEnd h1
          else (False, h1))"

partial_function (option) multiSlotWalkS ::
  "AttendeeObj list \<Rightarrow> ref \<Rightarrow> ref \<Rightarrow> ref \<Rightarrow> store \<Rightarrow> (SlotObj list \<times> store) option" where
  "multiSlotWalkS attendees endRange rangeEndTime currentSlotStart h =
     (if dateLt (getTime h currentSlotStart) (getTime h rangeEndTime) \<and>
         dateLt (getTime h currentSlotStart) (getTime h endRange) then
        (case newDate (map_option (\<lambda>t. t + 30 * 60 * 1000) (getTime h currentSlotStart)) h of
           (currentSlotEnd, h1) \<Rightarrow>
        (case isAvailableForAllS attendees currentSlotStart currentSlotEnd h1 of
           (availableForAll, h2) \<Rightarrow>
        (case (if availableForAll
               then (case newDate (getTime h2 currentSlotStart) h2 of
                       (d, h3) \<Rightarrow> ([\<lparr>slotStartRef = d, slotDurationM = 30\<rparr>], h3))
               else ([], h2)) of
           (pushed, h3) \<Rightarrow>
             Option.bind (multiSlotWalkS attendees endRange rangeEndTime currentSlotEnd h3)
               (\<lambda>(rest, h4). Some (pushed @ rest, h4)))))
      else Some ([], h))"

text \<open>The loop over the pairs of \<open>commonRange\<close>, from index \<open>i\<close> on.\<close>

function pairLoopS ::
  "AttendeeObj list \<Rightarrow> ref \<Rightarrow> ref \<Rightarrow> TimeOfDay list \<Rightarrow> nat \<Rightarrow> store \<Rightarrow>
     (SlotObj list \<times> store) option" where
  "pairLoopS attendees endRange currentDate commonRange i h =
     (if int i < int (length commonRange) - 1 then
        (let rangeStart = commonRange ! i;
             rangeEnd = commonRange ! (i + 1)
         in case newDate (map_option (\<lambda>t. dateUTC t (hours rangeStart) (minutes rangeStart))
                            (getTime h currentDate)) h of
              (currentSlotStart, h1) \<Rightarrow>
            (case newDate (map_option (\<lambda>t. dateUTC t (hours rangeEnd) (minutes rangeEnd))
                             (getTime h1 currentDate)) h1 of
              (rangeEndTime, h2) \<Rightarrow>
            (case multiSlotWalkS attendees endRange rangeEndTime currentSlotStart h2 of
               None \<Rightarrow> None
             | Some (slots, h3) \<Rightarrow>
                 (case pairLoopS attendees endRange currentDate commonRange (i + 2) h3 of
                    None \<Rightarrow> None
                  | Some (rest, h4) \<Rightarrow> Some (slots @ rest, h4)))))
      else Some ([], h))"
  by pat_completeness auto
termination
  by (relation "measure (\<lambda>(attendees, endRange, currentDate, commonRange, i, h).
        length commonRange - i)") auto

definition commonAvailableRangesS :: "AttendeeObj list \<Rightarrow> int option \<Rightarrow> TimeOfDay list list" where
  "commonAvailableRangesS attendees currentWeekday =
     List.map_filter (\<lambda>att. map_option rangeT (findWeekday currentWeekday (availabilityOf att)))
       attendees"

text \<open>
  The body of the day loop: the ranges are plain values, only the pair loop touches the
  store. An exception leaves the store as it is at the throw.
\<close>

definition multiDayBodyS ::
  "AttendeeObj list \<Rightarrow> ref \<Rightarrow> ref \<Rightarrow> store \<Rightarrow> ((error + SlotObj list) \<times> store) option" where
  "multiDayBodyS attendees endRange currentDate h =
     (let currentWeekday = map_option getUTCDay (getTime h currentDate);
          common = commonAvailableRangesS attendees currentWeekday
      in if length common \<noteq> length attendees then Some (Inr [], h)
         else case reduceRanges common of
                Inl e \<Rightarrow> Some (Inl e, h)
              | Inr commonRange \<Rightarrow>
                  (case pairLoopS attendees endRange currentDate commonRange 0 h of
                     None \<Rightarrow> None
                   | Some (slots, h1) \<Rightarrow> Some (Inr slots, h1)))"

partial_function (option) multiDayLoopS ::
  "AttendeeObj list \<Rightarrow> ref \<Rightarrow> ref \<Rightarrow> store \<Rightarrow> ((error + SlotObj list) \<times> store) option" where
  "multiDayLoopS attendees endRange currentDate h =
     (if dateLe (getTime h currentDate) (getTime h endRange) then
        (case multiDayBodyS attendees endRange currentDate h of
           None \<Rightarrow> None
         | Some (Inl e, h1) \<Rightarrow> Some (Inl e, h1)
         | Some (Inr slots, h1) \<Rightarrow>
             Option.bind
               (multiDayLoopS attendees endRange currentDate
                  (setTime currentDate (map_option nextUTCDate (getTime h1 currentDate)) h1))
               (\<lambda>(res, h2). Some (case res of Inl e \<Rightarrow> Inl e | Inr rest \<Rightarrow> Inr (slots @ rest), h2)))
      else Some (Inr [], h))"

definition listAvailable30MinuteSlotsMultiplePersonS ::
  "AttendeeObj list \<Rightarrow> ref \<times> ref \<Rightarrow> store \<Rightarrow> ((error + SlotObj list) \<times> store) option" where
  "listAvailable30MinuteSlotsMultiplePersonS attendees r h =
     (case r of (startRange, endRange) \<Rightarrow>
        (case newDate (getTime h startRange) h of
           (currentDate, h1) \<Rightarrow> multiDayLoopS attendees endRange currentDate h1))"

declare multiSlotWalkS.simps [code]
declare multiDayLoopS.simps [code]

text \<open>The result of a call that may throw: the slots, when it returns them, hold new Dates.\<close>

definition newResultDates :: "store \<Rightarrow> store \<Rightarrow> error + SlotObj list \<Rightarrow> bool" where
  "newResultDates h h' res = (case res of Inl e \<Rightarrow> True | Inr slots \<Rightarrow> newSlotDates h h' slots)"

subsection \<open>A store for the examples\<close>

text \<open>
  Five Dates: the range from Sunday 00:00 (address 0) to Sunday 12:00 (address 1), an
  event from 10:00 (address 2) to 11:00 (address 3), and a slot starting at 09:30
  (address 4).
\<close>

definition sundayStore :: store where
  "sundayStore = [Some (dateUTC sunday 0 0), Some (dateUTC sunday 12 0),
                  Some (dateUTC sunday 10 0), Some (dateUTC sunday 11 0),
                  Some (dateUTC sunday 9 30)]"

definition tenToElevenObj :: EventObj where
  "tenToElevenObj = \<lparr>startRef = 2, endRef = 3, bufferOf = Some \<lparr>before = 15, after = 15\<rparr>\<rparr>"

definition halfPastNine :: SlotObj where
  "halfPastNine = \<lparr>slotStartRef = 4, slotDurationM = 30\<rparr>"

definition sundayAttendee :: AttendeeObj where
  "sundayAttendee = \<lparr>availabilityOf = sundayNineToTen, eventsOf = [tenToElevenObj]\<rparr>"
section \<open>The sub-slot walk of one range entry\<close>

declare slotWalk.simps [simp del]
declare dayLoop.simps [simp del]

lemma mod_step: "((x::int) - (y + c)) mod c = (x - y) mod c"
proof -
  have "x - (y + c) = (x - y) - c" by simp
  then show ?thesis by (simp only: minus_mod_self2)
qed

lemma grid_step:
  assumes "(x::int) mod c = 0" and "x < k * c" and "0 < c"
  shows "x + c \<le> k * c"
proof -
  from assms(1) obtain q where q: "x = c * q" by (auto simp: mod_eq_0_iff_dvd)
  with assms(2,3) have "q < k" by (simp add: mult.commute)
  then have "q + 1 \<le> k" by simp
  with assms(3) have "c * (q + 1) \<le> c * k" by (simp only: mult_le_cancel_left_pos)
  with q show ?thesis by (simp add: algebra_simps)
qed

text \<open>What the walk guarantees of every slot it pushes.\<close>

lemma slotWalk_member:
  "s \<in> set (slotWalk evs sr er re cur) \<Longrightarrow>
     durationM s = 30 \<and> cur \<le> start s \<and> start s < re \<and> sr \<le> start s \<and>
     start s + 30 * 60 * 1000 \<le> er \<and>
     \<not> hasConflict evs (start s) (start s + 30 * 60 * 1000) \<and>
     (start s - cur) mod (30 * 60 * 1000) = 0"
proof (induction evs sr er re cur rule: slotWalk.induct)
  case (1 evs sr er re cur)
  from "1.prems" have lt: "cur < re" and inr: "\<not> (cur < sr \<or> cur + 30 * 60 * 1000 > er)"
    by (auto simp: slotWalk.simps [of evs sr er re cur] Let_def split: if_splits)
  from "1.prems" lt inr consider
      (here) "s = \<lparr>start = cur, durationM = 30\<rparr>" "\<not> hasConflict evs cur (cur + 30 * 60 * 1000)"
    | (later) "s \<in> set (slotWalk evs sr er re (cur + 30 * 60 * 1000))"
    by (auto simp: slotWalk.simps [of evs sr er re cur] Let_def split: if_splits)
  then show ?case
  proof cases
    case here
    with lt inr show ?thesis by simp
  next
    case later
    from "1.IH" [OF lt refl inr later] show ?thesis
      by (simp add: mod_step)
  qed
qed

lemma slotWalk_ascending:
  "sorted_wrt (<) (map start (slotWalk evs sr er re cur))"
proof (induction evs sr er re cur rule: slotWalk.induct)
  case (1 evs sr er re cur)
  show ?case
  proof (cases "cur < re \<and> \<not> (cur < sr \<or> cur + 30 * 60 * 1000 > er)")
    case False
    then show ?thesis by (auto simp: slotWalk.simps [of evs sr er re cur] Let_def)
  next
    case True
    then have lt: "cur < re" and inr: "\<not> (cur < sr \<or> cur + 30 * 60 * 1000 > er)" by auto
    have ih: "sorted_wrt (<) (map start (slotWalk evs sr er re (cur + 30 * 60 * 1000)))"
      using "1.IH" [OF lt refl inr] .
    have later: "\<forall>s \<in> set (slotWalk evs sr er re (cur + 30 * 60 * 1000)). cur < start s"
      using slotWalk_member by fastforce
    show ?thesis
      using lt inr ih later
      by (auto simp: slotWalk.simps [of evs sr er re cur] Let_def)
  qed
qed

lemma blockEnd_blockStart: "blockEnd d r = blockStart d r + 30 * msPerHour"
  by (simp add: blockEnd_def blockStart_def dateUTC_def algebra_simps)

lemma sundayNine_walk:
  "entrySlots [] (dateUTC sunday 9 0) (dateUTC sunday 12 0) (dateUTC sunday 9 0) nine =
     [slot30 (dateUTC sunday 9 0), slot30 (dateUTC sunday 9 30), slot30 (dateUTC sunday 10 0),
      slot30 (dateUTC sunday 10 30), slot30 (dateUTC sunday 11 0), slot30 (dateUTC sunday 11 30)]"
  by code_simp

section \<open>The day loop\<close>

lemma daySlots_cases:
  "daySlots a evs sr er d = [] \<or>
   (\<exists>entry. find (\<lambda>day. weekday day = getUTCDay d) (includeE a) = Some entry \<and>
      daySlots a evs sr er d = concat (map (entrySlots evs sr er d) (rangeT entry)))"
  by (simp add: daySlots_def split: option.split)

lemma daySlots_member:
  assumes "s \<in> set (daySlots a evs sr er d)"
  shows "\<exists>entry r. entry \<in> set (includeE a) \<and> weekday entry = getUTCDay d \<and>
           r \<in> set (rangeT entry) \<and> s \<in> set (entrySlots evs sr er d r)"
proof -
  from assms daySlots_cases [of a evs sr er d] obtain entry where
    f: "find (\<lambda>day. weekday day = getUTCDay d) (includeE a) = Some entry" and
    c: "daySlots a evs sr er d = concat (map (entrySlots evs sr er d) (rangeT entry))"
    by auto
  from f have "entry \<in> set (includeE a) \<and> weekday entry = getUTCDay d"
    by (auto simp: find_Some_iff)
  moreover from assms c obtain r where "r \<in> set (rangeT entry)" "s \<in> set (entrySlots evs sr er d r)"
    by auto
  ultimately show ?thesis by blast
qed

lemma dayLoop_member:
  "s \<in> set (dayLoop a evs sr er cur) \<Longrightarrow>
     \<exists>d. cur \<le> d \<and> d \<le> er \<and> s \<in> set (daySlots a evs sr er d)"
proof (induction a evs sr er cur rule: dayLoop.induct)
  case (1 a evs sr er cur)
  from "1.prems" have le: "cur \<le> er"
    by (auto simp: dayLoop.simps [of a evs sr er cur] split: if_splits)
  from "1.prems" le consider
      (today) "s \<in> set (daySlots a evs sr er cur)"
    | (later) "s \<in> set (dayLoop a evs sr er (nextUTCDate cur))"
    by (auto simp: dayLoop.simps [of a evs sr er cur])
  then show ?case
  proof cases
    case today
    with le show ?thesis by blast
  next
    case later
    from "1.IH" [OF le later] obtain d where
      "nextUTCDate cur \<le> d" "d \<le> er" "s \<in> set (daySlots a evs sr er d)" by blast
    moreover have "cur \<le> nextUTCDate cur" by (simp add: nextUTCDate_def msPerDay_def)
    ultimately show ?thesis by (meson order_trans)
  qed
qed

section \<open>The days of the range, in order\<close>

lemma day_count:
  assumes "0 < (c::int)" and "cur \<le> er"
  shows "nat ((er - cur) div c) = (if cur + c \<le> er then nat ((er - (cur + c)) div c) + 1 else 0)"
proof (cases "cur + c \<le> er")
  case True
  have "er - cur = (er - (cur + c)) + c" by simp
  then have "(er - cur) div c = (er - (cur + c)) div c + 1"
    using assms(1) by (metis div_add_self2 less_irrefl)
  moreover from True assms(1) have "0 \<le> (er - (cur + c)) div c"
    by (simp add: pos_imp_zdiv_nonneg_iff)
  ultimately show ?thesis using True by (simp add: nat_add_distrib)
next
  case False
  with assms have "0 \<le> er - cur" "er - cur < c" by simp_all
  then have "(er - cur) div c = 0" by simp
  with False show ?thesis by simp
qed

text \<open>
  The day loop emits the slots of \<open>currentDate\<close>, of the day after, and so on, for all
  the days that are not after \<open>endRange\<close>.
\<close>

lemma dayLoop_days:
  "dayLoop a evs sr er cur =
     concat (map (\<lambda>k. daySlots a evs sr er (cur + int k * msPerDay))
               [0..<(if cur \<le> er then nat ((er - cur) div msPerDay) + 1 else 0)])"
proof (induction a evs sr er cur rule: dayLoop.induct)
  case (1 a evs sr er cur)
  show ?case
  proof (cases "cur \<le> er")
    case False
    then show ?thesis by (simp add: dayLoop.simps [of a evs sr er cur])
  next
    case True
    have pos: "0 < msPerDay" by (simp add: msPerDay_def)
    let ?n = "if cur + msPerDay \<le> er then nat ((er - (cur + msPerDay)) div msPerDay) + 1 else 0"
    have n: "nat ((er - cur) div msPerDay) = ?n" using day_count [OF pos True] .
    have shift: "\<And>k. cur + msPerDay + int k * msPerDay = cur + int (Suc k) * msPerDay"
      by (simp add: algebra_simps)
    have "dayLoop a evs sr er cur =
            daySlots a evs sr er cur @ dayLoop a evs sr er (nextUTCDate cur)"
      using True by (simp add: dayLoop.simps [of a evs sr er cur])
    also have "dayLoop a evs sr er (nextUTCDate cur) =
            concat (map (\<lambda>k. daySlots a evs sr er (cur + int (Suc k) * msPerDay)) [0..<?n])"
      using "1.IH" [OF True] unfolding nextUTCDate_def shift .
    also have "daySlots a evs sr er cur @ \<dots> =
            concat (map (\<lambda>k. daySlots a evs sr er (cur + int k * msPerDay)) [0..<Suc ?n])"
      unfolding map_upt_Suc by simp
    finally show ?thesis using True n by simp
  qed
qed

lemma daySlots_entries:
  "daySlots a evs sr er d =
     concat (map (entrySlots evs sr er d)
               (case find (\<lambda>day. weekday day = getUTCDay d) (includeE a) of
                  None \<Rightarrow> [] | Some dayAvailability \<Rightarrow> rangeT dayAvailability))"
  by (simp add: daySlots_def split: option.split)

section \<open>Enumerated slots against the validator\<close>

lemma div_bounds:
  assumes "0 < (c::int)"
  shows "t div c * c \<le> t" and "t < t div c * c + c"
proof -
  have e: "t = t div c * c + t mod c" by simp
  from assms have "0 \<le> t mod c" "t mod c < c" by simp_all
  with e show "t div c * c \<le> t" and "t < t div c * c + c" by linarith+
qed

lemma utcDay_bounds:
  "utcDay t * msPerDay \<le> t" "t < utcDay t * msPerDay + msPerDay"
  using div_bounds [of msPerDay t] by (simp_all add: utcDay_def msPerDay_def)

lemma conflicted_imp_hasConflictWith:
  "isSlotConflictedWith s e ev \<Longrightarrow> hasConflictWith s e ev"
  by (auto simp: isSlotConflictedWith_def hasConflictWith_def Let_def
        calculateEventStartWithBuffer_def calculateEventEndWithBuffer_def
        dateLt_def dateLe_def dateGt_def dateGe_def split: option.splits)

lemma not_hasConflict_not_conflicted:
  "\<not> hasConflict evs s e \<Longrightarrow> \<not> isSlotConflictedWithEvents s e evs"
  by (auto simp: hasConflict_def isSlotConflictedWithEvents_def list_ex_iff
        dest: conflicted_imp_hasConflictWith)

lemma validTimeOfDay_nonneg:
  "validTimeOfDay r \<Longrightarrow> 0 \<le> hours r * msPerHour + minutes r * msPerMinute"
  by (simp add: validTimeOfDay_def msPerHour_def msPerMinute_def)

lemma same_day_slot_in_range:
  assumes s: "s \<in> set (entrySlots evs sr er d r)"
    and day: "utcDay (start s) = utcDay d"
    and r: "validTimeOfDay r"
  shows "isSlotInRange utcZone (start s) (calculateSlotEndTime (start s) (durationM s)) [r]"
proof -
  from s have m: "s \<in> set (slotWalk evs sr er (blockEnd d r) (blockStart d r))"
    by (simp add: entrySlots_def)
  note f = slotWalk_member [OF m]
  have rs: "setHours utcZone (start s) (hours r) (minutes r) = blockStart d r"
    using day by (simp add: setHours_def utcZone_def Let_def blockStart_def dateUTC_def utcDay_def)
  have "start s < utcDay d * msPerDay + msPerDay"
    using utcDay_bounds(2) [of "start s"] day by simp
  moreover have "utcDay d * msPerDay \<le> blockStart d r"
    using validTimeOfDay_nonneg [OF r] by (simp add: blockStart_def dateUTC_def)
  ultimately have "start s - blockStart d r < 48 * 1800000"
    by (simp add: msPerDay_def)
  moreover from f have "(start s - blockStart d r) mod 1800000 = 0" by simp
  ultimately have "start s - blockStart d r + 1800000 \<le> 48 * 1800000"
    using grid_step [of "start s - blockStart d r" 1800000 48] by simp
  with f rs show ?thesis
    by (simp add: isSlotInRange_def calculateSlotEndTime_def Let_def)
qed

lemma isSlotInRange_mono:
  "isSlotInRange z a b [r] \<Longrightarrow> r \<in> set rs \<Longrightarrow> isSlotInRange z a b rs"
  by (auto simp: isSlotInRange_def list_ex_iff)

section \<open>The three overlap tests\<close>

lemmas date_compare = dateLt_def dateLe_def dateGt_def dateGe_def

lemma validEvent_buffered:
  assumes "validEvent ev"
    and "calculateEventStartWithBuffer ev = Some es"
    and "calculateEventEndWithBuffer ev = Some ee"
  shows "es < ee"
proof -
  from assms(2) have "es = startE ev - bufferBefore ev * 60 * 1000"
    by (simp add: calculateEventStartWithBuffer_def timeClip_def split: if_splits)
  moreover from assms(3) have "ee = endE ev + bufferAfter ev * 60 * 1000"
    by (simp add: calculateEventEndWithBuffer_def timeClip_def split: if_splits)
  ultimately show ?thesis using assms(1) by (simp add: validEvent_def)
qed

text \<open>The tests written with the two buffered bounds of the event.\<close>

lemma isSlotConflictedWith_bounds:
  "isSlotConflictedWith ss se ev \<longleftrightarrow>
     (\<exists>es ee. calculateEventStartWithBuffer ev = Some es \<and>
        calculateEventEndWithBuffer ev = Some ee \<and> ss < ee \<and> es < se)"
  by (cases "calculateEventStartWithBuffer ev"; cases "calculateEventEndWithBuffer ev")
     (simp_all add: isSlotConflictedWith_def Let_def date_compare)

lemma hasConflictWith_bounds:
  "hasConflictWith ss se ev \<longleftrightarrow>
     (\<exists>es ee. calculateEventStartWithBuffer ev = Some es \<and>
        calculateEventEndWithBuffer ev = Some ee \<and>
        ((es \<le> ss \<and> ss < ee) \<or> (es < se \<and> se \<le> ee) \<or> (ss \<le> es \<and> ee \<le> se)))"
  by (cases "calculateEventStartWithBuffer ev"; cases "calculateEventEndWithBuffer ev")
     (simp_all add: hasConflictWith_def Let_def date_compare
        calculateEventStartWithBuffer_def calculateEventEndWithBuffer_def)

lemma noOverlapWith_bounds:
  "noOverlapWith ss se ev \<longleftrightarrow>
     (\<exists>es. calculateEventStartWithBuffer ev = Some es \<and> se \<le> es) \<or>
     (\<exists>ee. calculateEventEndWithBuffer ev = Some ee \<and> ee \<le> ss)"
  by (cases "calculateEventStartWithBuffer ev"; cases "calculateEventEndWithBuffer ev")
     (simp_all add: noOverlapWith_def Let_def date_compare
        calculateEventStartWithBuffer_def calculateEventEndWithBuffer_def)

lemma hasConflictWith_overlap:
  assumes "validEvent ev" and "ss < se"
  shows "hasConflictWith ss se ev \<longleftrightarrow> isSlotConflictedWith ss se ev"
proof
  assume "hasConflictWith ss se ev"
  then obtain es ee where b: "calculateEventStartWithBuffer ev = Some es"
      "calculateEventEndWithBuffer ev = Some ee"
      "(es \<le> ss \<and> ss < ee) \<or> (es < se \<and> se \<le> ee) \<or> (ss \<le> es \<and> ee \<le> se)"
    unfolding hasConflictWith_bounds by blast
  from validEvent_buffered [OF assms(1) b(1,2)] b(3) assms(2) have "ss < ee \<and> es < se" by linarith
  with b(1,2) show "isSlotConflictedWith ss se ev" unfolding isSlotConflictedWith_bounds by blast
next
  assume "isSlotConflictedWith ss se ev"
  then show "hasConflictWith ss se ev" by (rule conflicted_imp_hasConflictWith)
qed

section \<open>Larger buffers, fewer slots\<close>

declare multiSlotWalk.simps [simp del]
declare pairLoop.simps [simp del]
declare multiDayLoop.simps [simp del]
















section \<open>The intersection loop on the remaining pairs\<close>

declare intersectLoop.simps [simp del]

lemma map_sum_append:
  "map_sum id ((@) (xs @ ys)) r = map_sum id ((@) xs) (map_sum id ((@) ys) r)"
  by (cases r) simp_all

lemma intersectLoop_suffix:
  "intersectLoop A B i j res = map_sum id ((@) res) (intersectRest (drop i A) (drop j B))"
proof (induction A B i j res rule: intersectLoop.induct)
  case (1 A B i j res)
  show ?case
  proof (cases "i < length A \<and> j < length B")
    case False
    then have "drop i A = [] \<or> drop j B = []" by auto
    then have "intersectRest (drop i A) (drop j B) = Inr []"
      by (cases "drop i A") auto
    with False show ?thesis by (simp add: intersectLoop.simps [of A B i j res])
  next
    case both: True
    show ?thesis
    proof (cases "i + 1 < length A \<and> j + 1 < length B")
      case False
      from both obtain a as b bs where d: "drop i A = a # as" "drop j B = b # bs"
        by (metis Cons_nth_drop_Suc)
      from False d both have "as = [] \<or> bs = []"
        by (metis Suc_eq_plus1 drop_Suc drop_eq_Nil2 leI list.sel(3) tl_drop)
      with d have "intersectRest (drop i A) (drop j B) = Inl TypeError"
        by (cases as; cases bs) auto
      with both False show ?thesis by (auto simp: intersectLoop.simps [of A B i j res])
    next
      case True
      then have dA: "drop i A = A ! i # A ! (i + 1) # drop (i + 2) A"
        and dB: "drop j B = B ! j # B ! (j + 1) # drop (j + 2) B"
        by (simp_all add: Cons_nth_drop_Suc)
      let ?maxStart = "if minutesOf (A ! i) > minutesOf (B ! j) then A ! i else B ! j"
      let ?minEnd = "if minutesOf (A ! (i + 1)) < minutesOf (B ! (j + 1)) then A ! (i + 1) else B ! (j + 1)"
      let ?out = "if minutesOf ?maxStart < minutesOf ?minEnd then [?maxStart, ?minEnd] else []"
      have res': "(if minutesOf ?maxStart < minutesOf ?minEnd then res @ [?maxStart, ?minEnd] else res)
                    = res @ ?out"
        by simp
      show ?thesis
      proof (cases "minutesOf (A ! (i + 1)) < minutesOf (B ! (j + 1))")
        case lt: True
        have "intersectLoop A B i j res = intersectLoop A B (i + 2) j (res @ ?out)"
          using both True lt
          by (subst intersectLoop.simps) (simp add: Let_def)
        also have "\<dots> = map_sum id ((@) (res @ ?out)) (intersectRest (drop (i + 2) A) (drop j B))"
          using "1.IH"(1) [OF both True refl refl refl refl refl refl refl lt]
          unfolding res' .
        also have "\<dots> = map_sum id ((@) res) (intersectRest (drop i A) (drop j B))"
          unfolding map_sum_append using lt by (simp add: dA dB Let_def)
        finally show ?thesis .
      next
        case ge: False
        have "intersectLoop A B i j res = intersectLoop A B i (j + 2) (res @ ?out)"
          using both True ge
          by (subst intersectLoop.simps) (simp add: Let_def)
        also have "\<dots> = map_sum id ((@) (res @ ?out)) (intersectRest (drop i A) (drop (j + 2) B))"
          using "1.IH"(2) [OF both True refl refl refl refl refl refl refl ge]
          unfolding res' .
        also have "\<dots> = map_sum id ((@) res) (intersectRest (drop i A) (drop j B))"
          unfolding map_sum_append using ge by (simp add: dA dB Let_def)
        finally show ?thesis .
      qed
    qed
  qed
qed

lemma intersectRanges_rest: "intersectRanges A B = intersectRest A B"
  by (cases "intersectRest A B") (simp_all add: intersectRanges_def intersectLoop_suffix)

section \<open>When the operations return\<close>

lemma intersectRest_even:
  "even (length A) \<Longrightarrow> even (length B) \<Longrightarrow>
     \<exists>R. intersectRest A B = Inr R \<and> even (length R) \<and> set R \<subseteq> set A \<union> set B"
proof (induction A B rule: intersectRest.induct)
  case (1 startA endA restA startB endB restB)
  show ?case
  proof (cases "minutesOf endA < minutesOf endB")
    case True
    from "1.IH"(1) [OF refl refl refl True] "1.prems" obtain R where
      "intersectRest restA (startB # endB # restB) = Inr R" "even (length R)"
      "set R \<subseteq> set restA \<union> set (startB # endB # restB)" by auto
    with True show ?thesis by (auto simp: Let_def)
  next
    case False
    from "1.IH"(2) [OF refl refl refl False] "1.prems" obtain R where
      "intersectRest (startA # endA # restA) restB = Inr R" "even (length R)"
      "set R \<subseteq> set (startA # endA # restA) \<union> set restB" by auto
    with False show ?thesis by (auto simp: Let_def)
  qed
qed auto



lemma commonAvailableRanges_length:
  "length (commonAvailableRanges attendees w) \<le> length attendees"
  by (simp add: commonAvailableRanges_def map_filter_def)







section \<open>intersectRanges computes the overlaps\<close>

lemma overlaps_empty [simp]: "overlaps {} Q = {}" "overlaps P {} = {}"
  by (auto simp: overlaps_def)

lemma overlaps_mem:
  "x \<in> overlaps P Q \<longleftrightarrow>
     (\<exists>sa ea sb eb. x = (max sa sb, min ea eb) \<and> (sa, ea) \<in> P \<and> (sb, eb) \<in> Q \<and>
        max sa sb < min ea eb)"
  unfolding overlaps_def by blast

lemma overlaps_insert_left: "overlaps (insert a P) Q = overlaps {a} Q \<union> overlaps P Q"
proof (rule set_eqI)
  fix x show "x \<in> overlaps (insert a P) Q \<longleftrightarrow> x \<in> overlaps {a} Q \<union> overlaps P Q"
    unfolding Un_iff overlaps_mem by blast
qed

lemma overlaps_insert_right: "overlaps P (insert b Q) = overlaps P {b} \<union> overlaps P Q"
proof (rule set_eqI)
  fix x show "x \<in> overlaps P (insert b Q) \<longleftrightarrow> x \<in> overlaps P {b} \<union> overlaps P Q"
    unfolding Un_iff overlaps_mem by blast
qed

lemma overlaps_commute: "overlaps P Q = overlaps Q P"
proof (rule set_eqI)
  fix x show "x \<in> overlaps P Q \<longleftrightarrow> x \<in> overlaps Q P"
    unfolding overlaps_mem by (metis max.commute min.commute)
qed

lemma overlaps_single:
  "overlaps {(sa, ea)} {(sb, eb)} = (if max sa sb < min ea eb then {(max sa sb, min ea eb)} else {})"
  by (auto simp: overlaps_def)

lemma overlaps_none_right:
  assumes "\<And>s e. (s, e) \<in> Q \<Longrightarrow> ea \<le> s \<and> s < e"
  shows "overlaps {(sa, ea)} Q = {}"
proof -
  have "\<not> max sa s < min ea e" if "(s, e) \<in> Q" for s e
    using assms [OF that] by simp
  then show ?thesis by (auto simp: overlaps_def)
qed

lemma overlaps_none_left:
  assumes "\<And>s e. (s, e) \<in> P \<Longrightarrow> eb \<le> s \<and> s < e"
  shows "overlaps P {(sb, eb)} = {}"
proof -
  have "\<not> max s sb < min e eb" if "(s, e) \<in> P" for s e
    using assms [OF that] by simp
  then show ?thesis by (auto simp: overlaps_def)
qed

lemma minutePairs_simps [simp]:
  "minutePairs [] = {}"
  "minutePairs (s # e # rest) = insert (minutesOf s, minutesOf e) (minutePairs rest)"
  by (simp_all add: minutePairs_def)

lemma validPairs_later:
  "validPairs rest \<Longrightarrow> (case rest of [] \<Rightarrow> True | s' # _ \<Rightarrow> b \<le> minutesOf s') \<Longrightarrow>
     (s, e) \<in> minutePairs rest \<Longrightarrow> b \<le> s \<and> s < e"
proof (induction rest arbitrary: b rule: validPairs.induct)
  case (3 s0 e0 rest)
  from "3.prems"(1,2) have h: "minutesOf s0 < minutesOf e0" "b \<le> minutesOf s0" by simp_all
  from "3.prems"(3) consider "(s, e) = (minutesOf s0, minutesOf e0)" | "(s, e) \<in> minutePairs rest"
    by auto
  then show ?case
  proof cases
    case 1
    with h show ?thesis by simp
  next
    case 2
    from "3.prems"(1) have "validPairs rest"
      "case rest of [] \<Rightarrow> True | s' # _ \<Rightarrow> minutesOf e0 \<le> minutesOf s'" by simp_all
    from "3.IH" [OF this 2] h show ?thesis by simp
  qed
qed simp_all

lemma validPairs_tail:
  assumes "validPairs (s # e # rest)" and "(s', e') \<in> minutePairs rest"
  shows "minutesOf e \<le> s' \<and> s' < e'"
  using assms validPairs_later [of rest "minutesOf e" s' e'] by simp

lemma intersectRest_overlaps:
  "validPairs A \<Longrightarrow> validPairs B \<Longrightarrow>
     \<exists>R. intersectRest A B = Inr R \<and> minutePairs R = overlaps (minutePairs A) (minutePairs B)"
proof (induction A B rule: intersectRest.induct)
  case (1 startA endA restA startB endB restB)
  let ?maxStart = "if minutesOf startA > minutesOf startB then startA else startB"
  let ?minEnd = "if minutesOf endA < minutesOf endB then endA else endB"
  let ?out = "if minutesOf ?maxStart < minutesOf ?minEnd then [?maxStart, ?minEnd] else []"
  have mx: "minutesOf ?maxStart = max (minutesOf startA) (minutesOf startB)" by simp
  have mn: "minutesOf ?minEnd = min (minutesOf endA) (minutesOf endB)" by simp
  have out: "\<And>R. minutePairs (?out @ R) =
      overlaps {(minutesOf startA, minutesOf endA)} {(minutesOf startB, minutesOf endB)} \<union> minutePairs R"
    unfolding overlaps_single mx [symmetric] mn [symmetric] by simp
  from "1.prems" have vA: "validPairs restA" and vB: "validPairs restB" by simp_all
  note tA = validPairs_tail [OF "1.prems"(1)]
  note tB = validPairs_tail [OF "1.prems"(2)]
  show ?case
  proof (cases "minutesOf endA < minutesOf endB")
    case True
    from "1.IH"(1) [OF refl refl refl True vA "1.prems"(2)] obtain R where
      R: "intersectRest restA (startB # endB # restB) = Inr R"
         "minutePairs R = overlaps (minutePairs restA) (minutePairs (startB # endB # restB))"
      by blast
    have "minutesOf endA \<le> s \<and> s < e" if "(s, e) \<in> minutePairs restB" for s e
      using tB [OF that] True by simp
    then have none: "overlaps {(minutesOf startA, minutesOf endA)} (minutePairs restB) = {}"
      by (rule overlaps_none_right)
    have "intersectRest (startA # endA # restA) (startB # endB # restB) = Inr (?out @ R)"
      using True R(1) by (simp add: Let_def)
    moreover have "minutePairs (?out @ R) =
        overlaps (minutePairs (startA # endA # restA)) (minutePairs (startB # endB # restB))"
      unfolding out R(2)
      by (simp add: overlaps_insert_left [of _ "minutePairs restA"]
            overlaps_insert_right [of "{(minutesOf startA, minutesOf endA)}" _ "minutePairs restB"] none)
    ultimately show ?thesis by blast
  next
    case False
    from "1.IH"(2) [OF refl refl refl False "1.prems"(1) vB] obtain R where
      R: "intersectRest (startA # endA # restA) restB = Inr R"
         "minutePairs R = overlaps (minutePairs (startA # endA # restA)) (minutePairs restB)"
      by blast
    have "minutesOf endB \<le> s \<and> s < e" if "(s, e) \<in> minutePairs restA" for s e
      using tA [OF that] False by simp
    then have none: "overlaps (minutePairs restA) {(minutesOf startB, minutesOf endB)} = {}"
      by (rule overlaps_none_left)
    have "intersectRest (startA # endA # restA) (startB # endB # restB) = Inr (?out @ R)"
      using False R(1) by (simp add: Let_def)
    moreover have "minutePairs (?out @ R) =
        overlaps (minutePairs (startA # endA # restA)) (minutePairs (startB # endB # restB))"
      unfolding out R(2)
      by (simp add: overlaps_insert_right [of _ _ "minutePairs restB"]
            overlaps_insert_left [of _ "minutePairs restA" "{(minutesOf startB, minutesOf endB)}"] none
            Un_assoc)
    ultimately show ?thesis by blast
  qed
qed simp_all


section \<open>Pairs of a result as times of day\<close>

lemma validPairs_even: "validPairs A \<Longrightarrow> even (length A)"
  by (induction A rule: validPairs.induct) simp_all

lemma pairsOf_subset: "set (pairsOf xs) \<subseteq> set xs \<times> set xs"
  by (induction xs rule: pairsOf.induct) auto

lemma pairsOf_map: "pairsOf (map f xs) = map (map_prod f f) (pairsOf xs)"
  by (induction xs rule: pairsOf.induct) simp_all

lemma minutePairs_image: "minutePairs R = map_prod minutesOf minutesOf ` set (pairsOf R)"
  by (simp add: minutePairs_def pairsOf_map)

lemma minutesOf_split:
  assumes "validTimeOfDay t"
  shows "minutesOf t div 60 = hours t" and "minutesOf t mod 60 = minutes t"
  using assms by (simp_all add: validTimeOfDay_def minutesOf_def)

lemma minutesOf_inj:
  assumes "validTimeOfDay t" and "validTimeOfDay u" and "minutesOf t = minutesOf u"
  shows "t = u"
proof -
  have "hours t = hours u"
    using minutesOf_split(1) [OF assms(1)] minutesOf_split(1) [OF assms(2)] assms(3) by simp
  moreover have "minutes t = minutes u"
    using minutesOf_split(2) [OF assms(1)] minutesOf_split(2) [OF assms(2)] assms(3) by simp
  ultimately show ?thesis by simp
qed

lemma valid_pairs_equal:
  assumes "set X \<subseteq> Collect validTimeOfDay" and "set Y \<subseteq> Collect validTimeOfDay"
    and "minutePairs X = minutePairs Y"
  shows "set (pairsOf X) = set (pairsOf Y)"
proof -
  let ?V = "Collect validTimeOfDay \<times> Collect validTimeOfDay"
  have inj: "inj_on (map_prod minutesOf minutesOf) ?V"
    by (auto simp: inj_on_def dest: minutesOf_inj)
  have "set (pairsOf X) \<subseteq> ?V" "set (pairsOf Y) \<subseteq> ?V"
    using pairsOf_subset [of X] pairsOf_subset [of Y] assms(1,2) by blast+
  with inj assms(3) show ?thesis
    unfolding minutePairs_image by (simp add: inj_on_image_eq_iff)
qed

section \<open>The availability test of the validator without buffers\<close>

lemma find_map_entry:
  "find (\<lambda>e. weekday e = w) (map (\<lambda>e. e\<lparr>rangeT := f (rangeT e)\<rparr>) xs)
     = map_option (\<lambda>e. e\<lparr>rangeT := f (rangeT e)\<rparr>) (find (\<lambda>e. weekday e = w) xs)"
  by (induction xs) auto

lemma within_first_pair_only:
  "isSlotWithinAvailabilityE ss se
       (a\<lparr>includeE := map (\<lambda>e. e\<lparr>rangeT := take 2 (rangeT e)\<rparr>) (includeE a)\<rparr>)
     = isSlotWithinAvailabilityE ss se a"
proof (cases "find (\<lambda>e. weekday e = getUTCDay ss) (includeE a)")
  case None
  then show ?thesis
    by (simp add: isSlotWithinAvailabilityE_def find_map_entry Let_def)
next
  case (Some entry)
  then show ?thesis
    by (cases "rangeT entry" rule: list.exhaust [case_product list.exhaust])
       (auto simp: isSlotWithinAvailabilityE_def find_map_entry Let_def
             split: list.splits)
qed

lemma withEvents_true_iff:
  "isSlotAvailableWithEvents a evs s = Inr True \<longleftrightarrow>
     isSlotWithinAvailabilityE (start s) (calculateSlotEndTime (start s) (durationM s)) a = Inr True \<and>
     \<not> isSlotConflictedWithEventsE (start s) (calculateSlotEndTime (start s) (durationM s)) evs"
  by (auto simp: isSlotAvailableWithEvents_def Let_def split: sum.splits if_splits)

lemma withinE_true:
  assumes "isSlotWithinAvailabilityE ss se a = Inr True"
  shows "\<exists>entry startRange endRange rest.
           find (\<lambda>avail. weekday avail = getUTCDay ss) (includeE a) = Some entry \<and>
           rangeT entry = startRange # endRange # rest \<and>
           setUTCHours ss (hours startRange) (minutes startRange) \<le> ss \<and>
           se \<le> setUTCHours ss (hours endRange) (minutes endRange)"
  using assms
  by (auto simp: isSlotWithinAvailabilityE_def Let_def split: option.splits list.splits)

text \<open>
  isSlotAvailableWithEvents accepts a slot only inside the first pair of the entry found
  for the slot's UTC weekday, and values beyond the first pair do not change its result.
\<close>

lemma withEvents_first_pair:
  "(isSlotAvailableWithEvents a evs s = Inr True \<longrightarrow>
      (\<exists>entry startRange endRange rest.
         find (\<lambda>avail. weekday avail = getUTCDay (start s)) (includeE a) = Some entry \<and>
         rangeT entry = startRange # endRange # rest \<and>
         setUTCHours (start s) (hours startRange) (minutes startRange) \<le> start s \<and>
         calculateSlotEndTime (start s) (durationM s)
           \<le> setUTCHours (start s) (hours endRange) (minutes endRange))) \<and>
   isSlotAvailableWithEvents
       (a\<lparr>includeE := map (\<lambda>e. e\<lparr>rangeT := take 2 (rangeT e)\<rparr>) (includeE a)\<rparr>) evs s
     = isSlotAvailableWithEvents a evs s"
proof (intro conjI impI)
  assume "isSlotAvailableWithEvents a evs s = Inr True"
  then have "isSlotWithinAvailabilityE (start s) (calculateSlotEndTime (start s) (durationM s)) a = Inr True"
    by (simp add: withEvents_true_iff)
  then show "\<exists>entry startRange endRange rest.
         find (\<lambda>avail. weekday avail = getUTCDay (start s)) (includeE a) = Some entry \<and>
         rangeT entry = startRange # endRange # rest \<and>
         setUTCHours (start s) (hours startRange) (minutes startRange) \<le> start s \<and>
         calculateSlotEndTime (start s) (durationM s)
           \<le> setUTCHours (start s) (hours endRange) (minutes endRange)"
    by (rule withinE_true)
next
  show "isSlotAvailableWithEvents
       (a\<lparr>includeE := map (\<lambda>e. e\<lparr>rangeT := take 2 (rangeT e)\<rparr>) (includeE a)\<rparr>) evs s
     = isSlotAvailableWithEvents a evs s"
    using within_first_pair_only [of "start s" _ a]
    by (simp add: isSlotAvailableWithEvents_def Let_def)
qed

section \<open>What the enumerator does to the store\<close>

lemma newDate_eq: "newDate v h = (length h, h @ [Option.bind v timeClip])"
  by (simp add: newDate_def)

lemma getTime_old: "d < length h \<Longrightarrow> getTime (h @ ext) d = getTime h d"
  by (simp add: getTime_def nth_append)

lemma getTime_new: "getTime (h @ v # ext) (length h) = v"
  by (simp add: getTime_def)

lemma hasConflictS_extends:
  "\<exists>ext. snd (hasConflictS evs cs ce h) = h @ ext"
proof (induction evs arbitrary: h)
  case Nil
  show ?case by simp
next
  case (Cons event rest)
  define v1 where "v1 = Option.bind (map_option (\<lambda>t. t - bufferBeforeOf event * 60 * 1000)
                      (getTime h (startRef event))) timeClip"
  define v2 where "v2 = Option.bind (map_option (\<lambda>t. t + bufferAfterOf event * 60 * 1000)
                      (getTime (h @ [v1]) (endRef event))) timeClip"
  have "snd (hasConflictS (event # rest) cs ce h) = h @ [v1, v2] \<or>
        snd (hasConflictS (event # rest) cs ce h) = snd (hasConflictS rest cs ce (h @ [v1, v2]))"
    by (simp add: newDate_def v1_def v2_def)
  moreover from Cons.IH [of "h @ [v1, v2]"] obtain ext where
    "snd (hasConflictS rest cs ce (h @ [v1, v2])) = h @ ([v1, v2] @ ext)" by auto
  ultimately show ?case by metis
qed

lemma dateLt_Some:
  "dateLt a b \<Longrightarrow> \<exists>x y. a = Some x \<and> b = Some y \<and> x < y"
  by (auto simp: dateLt_def split: option.splits)

lemma dateLe_Some:
  "dateLe a b \<Longrightarrow> \<exists>x y. a = Some x \<and> b = Some y \<and> x \<le> y"
  by (auto simp: dateLe_def split: option.splits)

lemma slotWalkS_returns:
  assumes "rangeEndTime < length h" and "currentSlotStart < length h"
  shows "\<exists>slots ext. slotWalkS evs sr er rangeEndTime currentSlotStart h = Some (slots, h @ ext) \<and>
           (\<forall>s \<in> set slots. length h \<le> slotStartRef s \<and> slotStartRef s < length (h @ ext)) \<and>
           sorted_wrt (<) (map slotStartRef slots)"
  using assms
proof (induction "case getTime h rangeEndTime of None \<Rightarrow> 0
                  | Some a \<Rightarrow> (case getTime h currentSlotStart of None \<Rightarrow> 0 | Some b \<Rightarrow> nat (a - b))"
         arbitrary: currentSlotStart h rule: less_induct)
  case less
  note re = less.prems(1) and cur = less.prems(2)
  show ?case
  proof (cases "dateLt (getTime h currentSlotStart) (getTime h rangeEndTime)")
    case False
    then have "slotWalkS evs sr er rangeEndTime currentSlotStart h = Some ([], h @ [])"
      by (subst slotWalkS.simps) simp
    then show ?thesis by (metis empty_iff list.set(1) list.simps(8) sorted_wrt.simps(1))
  next
    case lt: True
    from dateLt_Some [OF lt] obtain b a where
      ba: "getTime h currentSlotStart = Some b" "getTime h rangeEndTime = Some a" "b < a" by blast
    define v where "v = Option.bind (map_option (\<lambda>t. t + 1800000) (getTime h currentSlotStart)) timeClip"
    let ?h1 = "h @ [v]"
    let ?ce = "length h"
    have nd: "newDate (map_option (\<lambda>t. t + 1800000) (getTime h currentSlotStart)) h = (?ce, ?h1)"
      by (simp add: newDate_def v_def)
    show ?thesis
    proof (cases "dateLt (getTime ?h1 currentSlotStart) (getTime ?h1 sr) \<or>
                  dateGt (getTime ?h1 ?ce) (getTime ?h1 er)")
      case True
      with lt have "slotWalkS evs sr er rangeEndTime currentSlotStart h = Some ([], h @ [v])"
        by (subst slotWalkS.simps) (simp add: nd)
      then show ?thesis by (metis empty_iff list.set(1) list.simps(8) sorted_wrt.simps(1))
    next
      case inr: False
      from hasConflictS_extends [of evs currentSlotStart ?ce ?h1] obtain c e2 where
        c: "hasConflictS evs currentSlotStart ?ce ?h1 = (c, ?h1 @ e2)" by (metis prod.collapse)
      let ?h2 = "?h1 @ e2"
      define pushed where
        "pushed = (if \<not> c then [\<lparr>slotStartRef = length ?h2, slotDurationM = 30\<rparr>] else [])"
      define e3 where "e3 = (if \<not> c then [Option.bind (getTime ?h2 currentSlotStart) timeClip] else [])"
      let ?h3 = "?h2 @ e3"
      have p: "(if \<not> c
                 then (case newDate (getTime ?h2 currentSlotStart) ?h2 of
                         (d, h3) \<Rightarrow> ([\<lparr>slotStartRef = d, slotDurationM = 30\<rparr>], h3))
                 else ([], ?h2)) = (pushed, ?h3)"
        by (simp add: pushed_def e3_def newDate_def)
      have unfold: "slotWalkS evs sr er rangeEndTime currentSlotStart h =
          Option.bind (slotWalkS evs sr er rangeEndTime ?ce ?h3) (\<lambda>(rest, h4). Some (pushed @ rest, h4))"
        using lt inr by (subst slotWalkS.simps) (simp add: nd c p del: append_assoc)
      have vre: "getTime ?h3 rangeEndTime = Some a"
        using re ba(2) by (simp add: getTime_def nth_append)
      have vce: "getTime ?h3 ?ce = v"
        by (simp add: getTime_def nth_append)
      have "(case v of None \<Rightarrow> 0 | Some b' \<Rightarrow> nat (a - b')) < nat (a - b)"
        using ba(1,3) by (auto simp: v_def timeClip_def split: option.splits)
      then have "(case getTime ?h3 rangeEndTime of None \<Rightarrow> 0
                  | Some a \<Rightarrow> (case getTime ?h3 ?ce of None \<Rightarrow> 0 | Some b \<Rightarrow> nat (a - b)))
              < (case getTime h rangeEndTime of None \<Rightarrow> 0
                  | Some a \<Rightarrow> (case getTime h currentSlotStart of None \<Rightarrow> 0 | Some b \<Rightarrow> nat (a - b)))"
        unfolding vre vce ba by simp
      from less.hyps [OF this] re obtain rest ext where
        r: "slotWalkS evs sr er rangeEndTime ?ce ?h3 = Some (rest, ?h3 @ ext)"
           "\<forall>s \<in> set rest. length ?h3 \<le> slotStartRef s \<and> slotStartRef s < length (?h3 @ ext)"
           "sorted_wrt (<) (map slotStartRef rest)"
        by auto
      have res: "slotWalkS evs sr er rangeEndTime currentSlotStart h
                   = Some (pushed @ rest, h @ ([v] @ e2 @ e3 @ ext))"
        unfolding unfold r(1) by simp
      have fresh: "\<forall>s \<in> set (pushed @ rest). length h \<le> slotStartRef s \<and>
                     slotStartRef s < length (h @ ([v] @ e2 @ e3 @ ext))"
        using r(2) by (auto simp: pushed_def e3_def)
      have sorted: "sorted_wrt (<) (map slotStartRef (pushed @ rest))"
        using r(2,3) by (auto simp: pushed_def e3_def sorted_wrt_append)
      from res fresh sorted show ?thesis by blast
    qed
  qed
qed

lemma newSlotDates_Nil [simp]: "newSlotDates h h' []"
  by (simp add: newSlotDates_def)

lemma newSlotDates_append:
  assumes x: "newSlotDates h1 h2 xs" and y: "newSlotDates h2' h3 ys"
    and l0: "length h0 \<le> length h1" and l1: "length h1 \<le> length h2"
    and l2: "length h2 \<le> length h2'"
    and l3: "length h2' \<le> length h3"
  shows "newSlotDates h0 h3 (xs @ ys)"
proof -
  have bx: "\<And>s. s \<in> set xs \<Longrightarrow> length h1 \<le> slotStartRef s \<and> slotStartRef s < length h2"
    using x by (simp add: newSlotDates_def)
  have by': "\<And>s. s \<in> set ys \<Longrightarrow> length h2' \<le> slotStartRef s \<and> slotStartRef s < length h3"
    using y by (simp add: newSlotDates_def)
  have sx: "sorted_wrt (<) (map slotStartRef xs)" and sy: "sorted_wrt (<) (map slotStartRef ys)"
    using x y by (simp_all add: newSlotDates_def)
  have cross: "\<And>s t. s \<in> set xs \<Longrightarrow> t \<in> set ys \<Longrightarrow> slotStartRef s < slotStartRef t"
    using bx by' l2 by fastforce
  have bounds: "\<And>s. s \<in> set (xs @ ys) \<Longrightarrow> length h0 \<le> slotStartRef s \<and> slotStartRef s < length h3"
    using bx by' l0 l1 l2 l3 by fastforce
  show ?thesis
    unfolding newSlotDates_def using bounds sx sy cross
    by (simp add: sorted_wrt_append)
qed

lemma newSlotDates_widen:
  assumes "newSlotDates h1 h2 xs" and "length h0 \<le> length h1" and "length h2 \<le> length h3"
  shows "newSlotDates h0 h3 xs"
  using assms by (fastforce simp: newSlotDates_def)

lemma slotWalkS_new:
  assumes "rangeEndTime < length h" and "currentSlotStart < length h"
  shows "\<exists>slots ext. slotWalkS evs sr er rangeEndTime currentSlotStart h = Some (slots, h @ ext) \<and>
           newSlotDates h (h @ ext) slots"
  using slotWalkS_returns [OF assms] unfolding newSlotDates_def by blast

lemma rangeForEachS_returns:
  "\<exists>slots ext. rangeForEachS evs sr er cd rs h = Some (slots, h @ ext) \<and>
     newSlotDates h (h @ ext) slots"
proof (induction rs arbitrary: h)
  case Nil
  have "rangeForEachS evs sr er cd [] h = Some ([], h @ [])" by simp
  then show ?case by (metis newSlotDates_Nil)
next
  case (Cons r rs)
  define v1 where "v1 = Option.bind (map_option (\<lambda>t. dateUTC t (hours r) (minutes r)) (getTime h cd)) timeClip"
  define v2 where "v2 = Option.bind (map_option (\<lambda>t. dateUTC t (hours r + 30) (minutes r))
                           (getTime (h @ [v1]) cd)) timeClip"
  let ?h2 = "h @ [v1, v2]"
  from slotWalkS_new [of "Suc (length h)" ?h2 "length h" evs sr er] obtain slots e where
    w: "slotWalkS evs sr er (Suc (length h)) (length h) ?h2 = Some (slots, ?h2 @ e)"
       "newSlotDates ?h2 (?h2 @ e) slots"
    by auto
  from Cons.IH [of "?h2 @ e"] obtain rest e' where
    r: "rangeForEachS evs sr er cd rs (?h2 @ e) = Some (rest, (?h2 @ e) @ e')"
       "newSlotDates (?h2 @ e) ((?h2 @ e) @ e') rest"
    by blast
  have "rangeForEachS evs sr er cd (r # rs) h = Some (slots @ rest, h @ ([v1, v2] @ e @ e'))"
    using w(1) r(1) by (simp add: newDate_def v1_def v2_def)
  moreover have "newSlotDates h (h @ ([v1, v2] @ e @ e')) (slots @ rest)"
    using newSlotDates_append [OF w(2) r(2), of h] by simp
  ultimately show ?case by blast
qed

lemma dayLoopS_returns:
  assumes "cd < length h" and "er < length h" and "cd \<noteq> er"
  shows "\<exists>slots v ext. dayLoopS a evs sr er cd h = Some (slots, h[cd := v] @ ext) \<and>
           newSlotDates h (h[cd := v] @ ext) slots"
  using assms
proof (induction "case getTime h er of None \<Rightarrow> 0
                  | Some x \<Rightarrow> (case getTime h cd of None \<Rightarrow> 0 | Some y \<Rightarrow> nat (x - y + 1))"
         arbitrary: h rule: less_induct)
  case less
  note cd = less.prems(1) and er = less.prems(2) and ne = less.prems(3)
  show ?case
  proof (cases "dateLe (getTime h cd) (getTime h er)")
    case False
    then have "dayLoopS a evs sr er cd h = Some ([], h[cd := h ! cd] @ [])"
      by (subst dayLoopS.simps) simp
    then show ?thesis by (metis newSlotDates_Nil)
  next
    case le: True
    from dateLe_Some [OF le] obtain y x where
      yx: "getTime h cd = Some y" "getTime h er = Some x" "y \<le> x" by blast
    obtain slots e1 where body:
      "(case findWeekday (map_option getUTCDay (getTime h cd)) a of
          None \<Rightarrow> Some ([], h)
        | Some dayAvailability \<Rightarrow> rangeForEachS evs sr er cd (rangeT dayAvailability) h)
       = Some (slots, h @ e1)"
      "newSlotDates h (h @ e1) slots"
    proof (cases "findWeekday (map_option getUTCDay (getTime h cd)) a")
      case None
      then show ?thesis using that [of "[]" "[]"] by simp
    next
      case (Some day)
      with rangeForEachS_returns [of evs sr er cd "rangeT day" h] that show ?thesis by auto
    qed
    define w where "w = Option.bind (map_option nextUTCDate (getTime (h @ e1) cd)) timeClip"
    let ?h' = "h[cd := w] @ e1"
    have st: "setTime cd (map_option nextUTCDate (getTime (h @ e1) cd)) (h @ e1) = ?h'"
      using cd by (simp add: setTime_def w_def list_update_append1)
    have unfold: "dayLoopS a evs sr er cd h =
        Option.bind (dayLoopS a evs sr er cd ?h') (\<lambda>(rest, h2). Some (slots @ rest, h2))"
      using le by (subst dayLoopS.simps) (simp add: body(1) st)
    have ver: "getTime ?h' er = Some x"
      using er ne yx(2) by (simp add: getTime_def nth_append)
    have vcd: "getTime ?h' cd = w"
      using cd by (simp add: getTime_def nth_append)
    have "getTime (h @ e1) cd = Some y" using cd yx(1) by (simp add: getTime_def nth_append)
    then have "(case w of None \<Rightarrow> 0 | Some y' \<Rightarrow> nat (x - y' + 1)) < nat (x - y + 1)"
      using yx(3) by (auto simp: w_def timeClip_def nextUTCDate_def msPerDay_def split: option.splits)
    then have "(case getTime ?h' er of None \<Rightarrow> 0
                  | Some x \<Rightarrow> (case getTime ?h' cd of None \<Rightarrow> 0 | Some y \<Rightarrow> nat (x - y + 1)))
             < (case getTime h er of None \<Rightarrow> 0
                  | Some x \<Rightarrow> (case getTime h cd of None \<Rightarrow> 0 | Some y \<Rightarrow> nat (x - y + 1)))"
      unfolding ver vcd yx by simp
    from less.hyps [OF this] cd er ne obtain rest v e2 where
      r: "dayLoopS a evs sr er cd ?h' = Some (rest, ?h'[cd := v] @ e2)"
         "newSlotDates ?h' (?h'[cd := v] @ e2) rest"
      by auto
    have upd: "?h'[cd := v] = h[cd := v] @ e1"
      using cd by (simp add: list_update_append1)
    have "dayLoopS a evs sr er cd h = Some (slots @ rest, h[cd := v] @ (e1 @ e2))"
      unfolding unfold r(1) upd by simp
    moreover have "newSlotDates h (h[cd := v] @ (e1 @ e2)) (slots @ rest)"
      using newSlotDates_append [OF body(2) r(2), of h] by (simp add: upd)
    ultimately show ?thesis by blast
  qed
qed

lemma listAvailable30MinuteSlotsS_returns:
  assumes "endRange < length h"
  shows "\<exists>slots ext. listAvailable30MinuteSlotsS a evs (startRange, endRange) h = Some (slots, h @ ext) \<and>
           newSlotDates h (h @ ext) slots"
proof -
  define v0 where "v0 = Option.bind (getTime h startRange) timeClip"
  from dayLoopS_returns [of "length h" "h @ [v0]" endRange a evs startRange] assms
  obtain slots v ext where
    d: "dayLoopS a evs startRange endRange (length h) (h @ [v0]) = Some (slots, (h @ [v0])[length h := v] @ ext)"
       "newSlotDates (h @ [v0]) ((h @ [v0])[length h := v] @ ext) slots"
    by auto
  have "listAvailable30MinuteSlotsS a evs (startRange, endRange) h = Some (slots, h @ ([v] @ ext))"
    using d(1) by (simp add: listAvailable30MinuteSlotsS_def newDate_def v0_def)
  moreover have "newSlotDates h (h @ ([v] @ ext)) slots"
    using newSlotDates_widen [OF d(2), of h "h @ ([v] @ ext)"] by simp
  ultimately show ?thesis by blast
qed

section \<open>What the validators do to the store\<close>

lemma setTime_new:
  "setTime (length h + length e) v (h @ e @ [x]) = h @ e @ [Option.bind v timeClip]"
  by (simp add: setTime_def list_update_append)

lemma setTime_new0:
  "setTime (length h) v (h @ [x]) = h @ [Option.bind v timeClip]"
  using setTime_new [of h "[]" v x] by simp

lemma getAvailabilityTimeRangeS_extends:
  "\<exists>ext. snd (getAvailabilityTimeRangeS dateR rng h) = h @ ext"
proof (cases rng)
  case Nil
  then show ?thesis by (simp add: getAvailabilityTimeRangeS_def newDate_def)
next
  case (Cons r0 rest)
  show ?thesis
  proof (cases rest)
    case Nil
    with Cons show ?thesis
      by (simp add: getAvailabilityTimeRangeS_def newDate_def Let_def setTime_new0)
  next
    case (Cons r1 others)
    with \<open>rng = r0 # rest\<close> show ?thesis
      by (simp add: getAvailabilityTimeRangeS_def newDate_def Let_def setTime_new0
                    setTime_def list_update_append)
  qed
qed

lemma calculateSlotEndTimeLocalS_extends:
  "\<exists>ext. snd (calculateSlotEndTimeLocalS z startR durM h) = h @ ext"
  by (simp add: calculateSlotEndTimeLocalS_def newDate_def setTime_new0)

lemma calculateSlotEndTimeS_extends:
  "\<exists>ext. snd (calculateSlotEndTimeS startR durM h) = h @ ext"
  by (simp add: calculateSlotEndTimeS_def newDate_def)

lemma isSlotAvailableS_extends:
  "\<exists>ext. snd (isSlotAvailableS z avail slot h) = h @ ext"
proof (cases "findWeekday (map_option getUTCDay (getTime h (slotStartRef slot))) avail")
  case None
  then show ?thesis by (simp add: isSlotAvailableS_def)
next
  case (Some entry)
  obtain res h1 where g: "getAvailabilityTimeRangeS (slotStartRef slot) (rangeT entry) h = (res, h1)"
    by (cases "getAvailabilityTimeRangeS (slotStartRef slot) (rangeT entry) h")
  from getAvailabilityTimeRangeS_extends [of "slotStartRef slot" "rangeT entry" h] g
  obtain e1 where h1: "h1 = h @ e1" by auto
  show ?thesis
  proof (cases res)
    case (Inl e)
    with Some g h1 show ?thesis by (simp add: isSlotAvailableS_def)
  next
    case (Inr p)
    obtain sa ea where p: "p = (sa, ea)" by (cases p)
    obtain se h2 where c: "calculateSlotEndTimeLocalS z (slotStartRef slot) (slotDurationM slot) h1 = (se, h2)"
      by (cases "calculateSlotEndTimeLocalS z (slotStartRef slot) (slotDurationM slot) h1")
    from calculateSlotEndTimeLocalS_extends [of z "slotStartRef slot" "slotDurationM slot" h1] c
    obtain e2 where h2: "h2 = h1 @ e2" by auto
    from Some g Inr p c have "snd (isSlotAvailableS z avail slot h) = h2"
      by (simp add: isSlotAvailableS_def)
    with h1 h2 show ?thesis by simp
  qed
qed

lemma isSlotWithinAvailabilityES_extends:
  "\<exists>ext. snd (isSlotWithinAvailabilityES slotStart slotEnd avail h) = h @ ext"
proof (cases "findWeekday (map_option getUTCDay (getTime h slotStart)) avail")
  case None
  then show ?thesis by (simp add: isSlotWithinAvailabilityES_def)
next
  case (Some day)
  show ?thesis
  proof (cases "rangeT day")
    case Nil
    with Some show ?thesis by (simp add: isSlotWithinAvailabilityES_def newDate_def)
  next
    case (Cons r0 rest)
    show ?thesis
    proof (cases rest)
      case Nil
      with Some Cons show ?thesis
        by (simp add: isSlotWithinAvailabilityES_def newDate_def Let_def setTime_new0)
    next
      case (Cons r1 others)
      with Some \<open>rangeT day = r0 # rest\<close> show ?thesis
        by (simp add: isSlotWithinAvailabilityES_def newDate_def Let_def setTime_new0
                      setTime_def list_update_append)
    qed
  qed
qed

lemma isSlotAvailableWithEventsS_extends:
  "\<exists>ext. snd (isSlotAvailableWithEventsS avail evs slot h) = h @ ext"
proof -
  obtain se h1 where c: "calculateSlotEndTimeS (slotStartRef slot) (slotDurationM slot) h = (se, h1)"
    by (cases "calculateSlotEndTimeS (slotStartRef slot) (slotDurationM slot) h")
  from calculateSlotEndTimeS_extends [of "slotStartRef slot" "slotDurationM slot" h] c
  obtain e1 where h1: "h1 = h @ e1" by auto
  obtain res h2 where w: "isSlotWithinAvailabilityES (slotStartRef slot) se avail h1 = (res, h2)"
    by (cases "isSlotWithinAvailabilityES (slotStartRef slot) se avail h1")
  from isSlotWithinAvailabilityES_extends [of "slotStartRef slot" se avail h1] w
  obtain e2 where h2: "h2 = h1 @ e2" by auto
  from c w have "snd (isSlotAvailableWithEventsS avail evs slot h) = h2"
    by (cases res) (simp_all add: isSlotAvailableWithEventsS_def)
  with h1 h2 show ?thesis by simp
qed

lemma isSlotInRangeS_extends:
  "\<exists>ext. snd (isSlotInRangeS z slotStart slotEnd rs h) = h @ ext"
proof (induction rs arbitrary: h)
  case Nil
  show ?case by simp
next
  case (Cons r rs)
  define w where "w = Option.bind (map_option (\<lambda>t. setHours z t (hours r) (minutes r))
                         (getTime (h @ [Option.bind (getTime h slotStart) timeClip]) (length h))) timeClip"
  define v where "v = Option.bind (map_option (\<lambda>t. t + 24 * 60 * 60 * 1000)
                         (getTime (h @ [w]) (length h))) timeClip"
  from Cons.IH [of "h @ [w, v]"] obtain e where
    e: "snd (isSlotInRangeS z slotStart slotEnd rs (h @ [w, v])) = (h @ [w, v]) @ e" by blast
  have "snd (isSlotInRangeS z slotStart slotEnd (r # rs) h) = h @ [w, v] \<or>
        snd (isSlotInRangeS z slotStart slotEnd (r # rs) h) = h @ ([w, v] @ e)"
    using e by (simp add: newDate_def Let_def setTime_new0 w_def v_def)
  then show ?case by blast
qed

lemma includeSomeS_extends:
  "\<exists>ext. snd (includeSomeS z slotStart slotEnd entries h) = h @ ext"
proof (induction entries arbitrary: h)
  case Nil
  show ?case by simp
next
  case (Cons entry rest)
  obtain found h1 where b:
    "(if Some (weekday entry) = map_option getUTCDay (getTime h slotStart)
      then isSlotInRangeS z slotStart slotEnd (rangeT entry) h else (False, h)) = (found, h1)"
    by (cases "if Some (weekday entry) = map_option getUTCDay (getTime h slotStart)
      then isSlotInRangeS z slotStart slotEnd (rangeT entry) h else (False, h)")
  have "\<exists>e1. h1 = h @ e1"
    using b isSlotInRangeS_extends [of z slotStart slotEnd "rangeT entry" h]
    by (auto split: if_splits)
  then obtain e1 where h1: "h1 = h @ e1" ..
  from Cons.IH [of h1] obtain e2 where
    e2: "snd (includeSomeS z slotStart slotEnd rest h1) = h1 @ e2" ..
  have "snd (includeSomeS z slotStart slotEnd (entry # rest) h) = h1 \<or>
        snd (includeSomeS z slotStart slotEnd (entry # rest) h) = h1 @ e2"
    using b e2 by (simp add: Let_def)
  with h1 show ?case by auto
qed

lemma isSlotConflictedWithEventsS_extends:
  "\<exists>ext. snd (isSlotConflictedWithEventsS slotStart slotEnd evs h) = h @ ext"
proof (induction evs arbitrary: h)
  case Nil
  show ?case by simp
next
  case (Cons event rest)
  define v1 where "v1 = Option.bind (map_option (\<lambda>t. t - bufferBeforeOf event * 60 * 1000)
                           (getTime h (startRef event))) timeClip"
  define v2 where "v2 = Option.bind (map_option (\<lambda>t. t + bufferAfterOf event * 60 * 1000)
                           (getTime (h @ [v1]) (endRef event))) timeClip"
  from Cons.IH [of "h @ [v1, v2]"] obtain e where
    e: "snd (isSlotConflictedWithEventsS slotStart slotEnd rest (h @ [v1, v2])) = (h @ [v1, v2]) @ e"
    by blast
  have "snd (isSlotConflictedWithEventsS slotStart slotEnd (event # rest) h) = h @ [v1, v2] \<or>
        snd (isSlotConflictedWithEventsS slotStart slotEnd (event # rest) h) = h @ ([v1, v2] @ e)"
    using e by (simp add: calculateEventStartWithBufferS_def calculateEventEndWithBufferS_def
                          newDate_def v1_def v2_def)
  then show ?case by blast
qed

lemma isSlotAvailableWithBufferS_extends:
  "\<exists>ext. snd (isSlotAvailableWithBufferS z avail evs slot h) = h @ ext"
proof -
  obtain se h1 where c: "calculateSlotEndTimeS (slotStartRef slot) (slotDurationM slot) h = (se, h1)"
    by (cases "calculateSlotEndTimeS (slotStartRef slot) (slotDurationM slot) h")
  from calculateSlotEndTimeS_extends [of "slotStartRef slot" "slotDurationM slot" h] c
  obtain e1 where h1: "h1 = h @ e1" by auto
  obtain within h2 where w: "isSlotWithinAvailabilityS z (slotStartRef slot) se avail h1 = (within, h2)"
    by (cases "isSlotWithinAvailabilityS z (slotStartRef slot) se avail h1")
  from includeSomeS_extends [of z "slotStartRef slot" se "includeE avail" h1] w
  obtain e2 where h2: "h2 = h1 @ e2" by (auto simp: isSlotWithinAvailabilityS_def)
  obtain conflicted h3 where k: "isSlotConflictedWithEventsS (slotStartRef slot) se evs h2 = (conflicted, h3)"
    by (cases "isSlotConflictedWithEventsS (slotStartRef slot) se evs h2")
  from isSlotConflictedWithEventsS_extends [of "slotStartRef slot" se evs h2] k
  obtain e3 where h3: "h3 = h2 @ e3" by auto
  from c w k have "snd (isSlotAvailableWithBufferS z avail evs slot h) = h2 \<or>
                   snd (isSlotAvailableWithBufferS z avail evs slot h) = h3"
    by (simp add: isSlotAvailableWithBufferS_def)
  with h1 h2 h3 show ?thesis by auto
qed

section \<open>What the multi-person enumerator does to the store\<close>

lemma eventsEveryS_extends:
  "\<exists>ext. snd (eventsEveryS evs cs ce h) = h @ ext"
proof (induction evs arbitrary: h)
  case Nil
  show ?case by simp
next
  case (Cons event rest)
  define v1 where "v1 = Option.bind (map_option (\<lambda>t. t - bufferBeforeOf event * 60 * 1000)
                           (getTime h (startRef event))) timeClip"
  define v2 where "v2 = Option.bind (map_option (\<lambda>t. t + bufferAfterOf event * 60 * 1000)
                           (getTime (h @ [v1]) (endRef event))) timeClip"
  from Cons.IH [of "h @ [v1, v2]"] obtain e where
    e: "snd (eventsEveryS rest cs ce (h @ [v1, v2])) = (h @ [v1, v2]) @ e"
    by blast
  have "snd (eventsEveryS (event # rest) cs ce h) = h @ [v1, v2] \<or>
        snd (eventsEveryS (event # rest) cs ce h) = h @ ([v1, v2] @ e)"
    using e by (simp add: newDate_def v1_def v2_def)
  then show ?case by blast
qed

lemma isAvailableForAllS_extends:
  "\<exists>ext. snd (isAvailableForAllS attendees cs ce h) = h @ ext"
proof (induction attendees arbitrary: h)
  case Nil
  show ?case by simp
next
  case (Cons att rest)
  obtain free h1 where b: "eventsEveryS (eventsOf att) cs ce h = (free, h1)"
    by (cases "eventsEveryS (eventsOf att) cs ce h")
  from eventsEveryS_extends [of "eventsOf att" cs ce h] b obtain e1 where h1: "h1 = h @ e1" by auto
  from Cons.IH [of h1] obtain e2 where
    e2: "snd (isAvailableForAllS rest cs ce h1) = h1 @ e2" ..
  have "snd (isAvailableForAllS (att # rest) cs ce h) = h1 \<or>
        snd (isAvailableForAllS (att # rest) cs ce h) = h1 @ e2"
    using b e2 by simp
  with h1 show ?case by auto
qed

lemma multiSlotWalkS_returns:
  assumes "rangeEndTime < length h" and "currentSlotStart < length h"
  shows "\<exists>slots ext. multiSlotWalkS attendees er rangeEndTime currentSlotStart h = Some (slots, h @ ext) \<and>
           newSlotDates h (h @ ext) slots"
  using assms
proof (induction "case getTime h rangeEndTime of None \<Rightarrow> 0
                  | Some a \<Rightarrow> (case getTime h currentSlotStart of None \<Rightarrow> 0 | Some b \<Rightarrow> nat (a - b))"
         arbitrary: h currentSlotStart rule: less_induct)
  case less
  note ret = less.prems(1) and cs = less.prems(2)
  show ?case
  proof (cases "dateLt (getTime h currentSlotStart) (getTime h rangeEndTime) \<and>
                dateLt (getTime h currentSlotStart) (getTime h er)")
    case False
    then have "multiSlotWalkS attendees er rangeEndTime currentSlotStart h = Some ([], h @ [])"
      by (subst multiSlotWalkS.simps) auto
    then show ?thesis by (metis newSlotDates_Nil)
  next
    case True
    then have lt: "dateLt (getTime h currentSlotStart) (getTime h rangeEndTime)" by simp
    from dateLt_Some [OF lt] obtain b a where
      ba: "getTime h currentSlotStart = Some b" "getTime h rangeEndTime = Some a" "b < a" by blast
    define v where "v = Option.bind (map_option (\<lambda>t. t + 1800000) (getTime h currentSlotStart)) timeClip"
    let ?h1 = "h @ [v]"
    obtain ok h2 where f: "isAvailableForAllS attendees currentSlotStart (length h) ?h1 = (ok, h2)"
      by (cases "isAvailableForAllS attendees currentSlotStart (length h) ?h1")
    from isAvailableForAllS_extends [of attendees currentSlotStart "length h" ?h1] f
    obtain e2 where h2: "h2 = ?h1 @ e2" by auto
    define pushed where "pushed = (if ok then [\<lparr>slotStartRef = length h2, slotDurationM = 30\<rparr>] else [])"
    define h3 where "h3 = (if ok then h2 @ [Option.bind (getTime h2 currentSlotStart) timeClip] else h2)"
    have "\<exists>e3. h3 = h @ ([v] @ e3)"
    proof (cases ok)
      case True
      then have "h3 = h @ ([v] @ (e2 @ [Option.bind (getTime h2 currentSlotStart) timeClip]))"
        using h2 by (simp add: h3_def)
      then show ?thesis by blast
    next
      case False
      then have "h3 = h @ ([v] @ e2)" using h2 by (simp add: h3_def)
      then show ?thesis by blast
    qed
    then obtain e3 where h3e: "h3 = h @ ([v] @ e3)" ..
    have unfold: "multiSlotWalkS attendees er rangeEndTime currentSlotStart h =
        Option.bind (multiSlotWalkS attendees er rangeEndTime (length h) h3)
          (\<lambda>(rest, h4). Some (pushed @ rest, h4))"
      using True f
      by (subst multiSlotWalkS.simps) (simp add: newDate_def v_def pushed_def h3_def)
    have vret: "getTime h3 rangeEndTime = Some a"
      using ret ba(2) by (simp add: h3e getTime_def nth_append)
    have vcs: "getTime h3 (length h) = v"
      by (simp add: h3e getTime_def nth_append)
    have "(case v of None \<Rightarrow> 0 | Some b' \<Rightarrow> nat (a - b')) < nat (a - b)"
      using ba by (auto simp: v_def timeClip_def split: option.splits)
    then have "(case getTime h3 rangeEndTime of None \<Rightarrow> 0
                | Some a \<Rightarrow> (case getTime h3 (length h) of None \<Rightarrow> 0 | Some b \<Rightarrow> nat (a - b)))
             < (case getTime h rangeEndTime of None \<Rightarrow> 0
                | Some a \<Rightarrow> (case getTime h currentSlotStart of None \<Rightarrow> 0 | Some b \<Rightarrow> nat (a - b)))"
      unfolding vret vcs ba by simp
    from less.hyps [OF this] ret obtain rest e4 where
      r: "multiSlotWalkS attendees er rangeEndTime (length h) h3 = Some (rest, h3 @ e4)"
         "newSlotDates h3 (h3 @ e4) rest"
      by (auto simp: h3e)
    have p: "newSlotDates h h3 pushed"
      using h2 by (auto simp: pushed_def h3_def newSlotDates_def)
    have "multiSlotWalkS attendees er rangeEndTime currentSlotStart h
            = Some (pushed @ rest, h @ (([v] @ e3) @ e4))"
      unfolding unfold r(1) by (simp add: h3e)
    moreover have "newSlotDates h (h @ (([v] @ e3) @ e4)) (pushed @ rest)"
      using newSlotDates_append [OF p r(2), of h] by (simp add: h3e)
    ultimately show ?thesis by blast
  qed
qed

lemma pairLoopS_returns:
  assumes "cd < length h"
  shows "\<exists>slots ext. pairLoopS attendees er cd commonRange i h = Some (slots, h @ ext) \<and>
     newSlotDates h (h @ ext) slots"
  using assms
proof (induction attendees er cd commonRange i h rule: pairLoopS.induct)
  case (1 attendees er cd commonRange i h)
  show ?case
  proof (cases "int i < int (length commonRange) - 1")
    case False
    then have "pairLoopS attendees er cd commonRange i h = Some ([], h @ [])"
      by (subst pairLoopS.simps) simp
    then show ?thesis by (metis newSlotDates_Nil)
  next
    case True
    define v1 where "v1 = Option.bind (map_option (\<lambda>t. dateUTC t (hours (commonRange ! i)) (minutes (commonRange ! i)))
                             (getTime h cd)) timeClip"
    define v2 where "v2 = Option.bind (map_option (\<lambda>t. dateUTC t (hours (commonRange ! (i + 1))) (minutes (commonRange ! (i + 1))))
                             (getTime (h @ [v1]) cd)) timeClip"
    let ?h2 = "h @ [v1, v2]"
    from multiSlotWalkS_returns [of "Suc (length h)" ?h2 "length h" attendees er] obtain slots e where
      w: "multiSlotWalkS attendees er (Suc (length h)) (length h) ?h2 = Some (slots, ?h2 @ e)"
         "newSlotDates ?h2 (?h2 @ e) slots"
      by auto
    have cd': "cd < length (?h2 @ e)" using "1.prems" by simp
    from "1.IH" [OF True refl refl, of "length h" "h @ [v1]" "Suc (length h)" ?h2 "(slots, ?h2 @ e)" slots "?h2 @ e", OF _ _ _ _ cd']
    obtain rest e' where
      r: "pairLoopS attendees er cd commonRange (i + 2) (?h2 @ e) = Some (rest, (?h2 @ e) @ e')"
         "newSlotDates (?h2 @ e) ((?h2 @ e) @ e') rest"
      using w(1) by (auto simp: newDate_def v1_def v2_def)
    have "pairLoopS attendees er cd commonRange i h = Some (slots @ rest, h @ ([v1, v2] @ e @ e'))"
      using True w(1) r(1)
      by (subst pairLoopS.simps) (simp add: newDate_def v1_def v2_def Let_def)
    moreover have "newSlotDates h (h @ ([v1, v2] @ e @ e')) (slots @ rest)"
      using newSlotDates_append [OF w(2) r(2), of h] by simp
    ultimately show ?thesis by blast
  qed
qed

section \<open>The day loop of the multi-person enumerator over the store\<close>

lemma newResultDates_Inr [simp]: "newResultDates h h' (Inr slots) = newSlotDates h h' slots"
  by (simp add: newResultDates_def)

lemma newResultDates_Inl [simp]: "newResultDates h h' (Inl e)"
  by (simp add: newResultDates_def)

lemma multiDayBodyS_returns:
  assumes "cd < length h"
  shows "\<exists>res ext. multiDayBodyS attendees er cd h = Some (res, h @ ext) \<and>
           newResultDates h (h @ ext) res"
proof -
  let ?common = "commonAvailableRangesS attendees (map_option getUTCDay (getTime h cd))"
  show ?thesis
  proof (cases "length ?common \<noteq> length attendees")
    case True
    then have "multiDayBodyS attendees er cd h = Some (Inr [], h @ [])"
      by (simp add: multiDayBodyS_def Let_def)
    moreover have "newResultDates h (h @ []) (Inr [])" by simp
    ultimately show ?thesis by blast
  next
    case False
    show ?thesis
    proof (cases "reduceRanges ?common")
      case (Inl e)
      with False have "multiDayBodyS attendees er cd h = Some (Inl e, h @ [])"
        by (simp add: multiDayBodyS_def Let_def)
      moreover have "newResultDates h (h @ []) (Inl e)" by simp
      ultimately show ?thesis by blast
    next
      case (Inr commonRange)
      from pairLoopS_returns [OF assms, of attendees er commonRange 0] obtain slots ext where
        p: "pairLoopS attendees er cd commonRange 0 h = Some (slots, h @ ext)"
           "newSlotDates h (h @ ext) slots" by blast
      from False Inr p(1) have "multiDayBodyS attendees er cd h = Some (Inr slots, h @ ext)"
        by (simp add: multiDayBodyS_def Let_def)
      moreover have "newResultDates h (h @ ext) (Inr slots)" using p(2) by simp
      ultimately show ?thesis by blast
    qed
  qed
qed

lemma multiDayLoopS_returns:
  assumes "cd < length h" and "er < length h" and "cd \<noteq> er"
  shows "\<exists>res v ext. multiDayLoopS attendees er cd h = Some (res, h[cd := v] @ ext) \<and>
           newResultDates h (h[cd := v] @ ext) res"
  using assms
proof (induction "case getTime h er of None \<Rightarrow> 0
                  | Some x \<Rightarrow> (case getTime h cd of None \<Rightarrow> 0 | Some y \<Rightarrow> nat (x - y + 1))"
         arbitrary: h rule: less_induct)
  case less
  note cd = less.prems(1) and er = less.prems(2) and ne = less.prems(3)
  show ?case
  proof (cases "dateLe (getTime h cd) (getTime h er)")
    case False
    then have "multiDayLoopS attendees er cd h = Some (Inr [], h[cd := h ! cd] @ [])"
      by (subst multiDayLoopS.simps) simp
    moreover have "newResultDates h (h[cd := h ! cd] @ []) (Inr [])" by simp
    ultimately show ?thesis by blast
  next
    case le: True
    from dateLe_Some [OF le] obtain y x where
      yx: "getTime h cd = Some y" "getTime h er = Some x" "y \<le> x" by blast
    from multiDayBodyS_returns [OF cd, of attendees er] obtain res e1 where body:
      "multiDayBodyS attendees er cd h = Some (res, h @ e1)"
      "newResultDates h (h @ e1) res" by blast
    show ?thesis
    proof (cases res)
      case (Inl e)
      with body(1) le have "multiDayLoopS attendees er cd h = Some (Inl e, h[cd := h ! cd] @ e1)"
        by (subst multiDayLoopS.simps) simp
      moreover have "newResultDates h (h[cd := h ! cd] @ e1) (Inl e)" by simp
      ultimately show ?thesis by blast
    next
      case (Inr slots)
      define w where "w = Option.bind (map_option nextUTCDate (getTime (h @ e1) cd)) timeClip"
      let ?h' = "h[cd := w] @ e1"
      have st: "setTime cd (map_option nextUTCDate (getTime (h @ e1) cd)) (h @ e1) = ?h'"
        using cd by (simp add: setTime_def w_def list_update_append1)
      have unfold: "multiDayLoopS attendees er cd h =
          Option.bind (multiDayLoopS attendees er cd ?h')
            (\<lambda>(res, h2). Some (case res of Inl e \<Rightarrow> Inl e | Inr rest \<Rightarrow> Inr (slots @ rest), h2))"
        using le Inr by (subst multiDayLoopS.simps) (simp add: body(1) st)
      have ver: "getTime ?h' er = Some x"
        using er ne yx(2) by (simp add: getTime_def nth_append)
      have vcd: "getTime ?h' cd = w"
        using cd by (simp add: getTime_def nth_append)
      have "getTime (h @ e1) cd = Some y" using cd yx(1) by (simp add: getTime_def nth_append)
      then have "(case w of None \<Rightarrow> 0 | Some y' \<Rightarrow> nat (x - y' + 1)) < nat (x - y + 1)"
        using yx(3) by (auto simp: w_def timeClip_def nextUTCDate_def msPerDay_def split: option.splits)
      then have "(case getTime ?h' er of None \<Rightarrow> 0
                    | Some x \<Rightarrow> (case getTime ?h' cd of None \<Rightarrow> 0 | Some y \<Rightarrow> nat (x - y + 1)))
               < (case getTime h er of None \<Rightarrow> 0
                    | Some x \<Rightarrow> (case getTime h cd of None \<Rightarrow> 0 | Some y \<Rightarrow> nat (x - y + 1)))"
        unfolding ver vcd yx by simp
      from less.hyps [OF this] cd er ne obtain res' v e2 where
        r: "multiDayLoopS attendees er cd ?h' = Some (res', ?h'[cd := v] @ e2)"
           "newResultDates ?h' (?h'[cd := v] @ e2) res'"
        by auto
      have upd: "?h'[cd := v] = h[cd := v] @ e1"
        using cd by (simp add: list_update_append1)
      have eq: "multiDayLoopS attendees er cd h =
          Some (case res' of Inl e \<Rightarrow> Inl e | Inr rest \<Rightarrow> Inr (slots @ rest), h[cd := v] @ (e1 @ e2))"
        unfolding unfold r(1) upd by simp
      have "newResultDates h (h[cd := v] @ (e1 @ e2))
              (case res' of Inl e \<Rightarrow> Inl e | Inr rest \<Rightarrow> Inr (slots @ rest))"
      proof (cases res')
        case (Inl e)
        then show ?thesis by simp
      next
        case rest: (Inr rest)
        have s: "newSlotDates h (h @ e1) slots" using body(2) Inr by simp
        have t: "newSlotDates ?h' (?h'[cd := v] @ e2) rest" using r(2) rest by simp
        show ?thesis
          using newSlotDates_append [OF s t, of h] by (simp add: upd rest)
      qed
      with eq show ?thesis by blast
    qed
  qed
qed

lemma listAvailable30MinuteSlotsMultiplePersonS_returns:
  assumes "endRange < length h"
  shows "\<exists>res ext. listAvailable30MinuteSlotsMultiplePersonS attendees (startRange, endRange) h
                      = Some (res, h @ ext) \<and>
           newResultDates h (h @ ext) res"
proof -
  define v0 where "v0 = Option.bind (getTime h startRange) timeClip"
  from multiDayLoopS_returns [of "length h" "h @ [v0]" endRange attendees] assms
  obtain res v ext where
    d: "multiDayLoopS attendees endRange (length h) (h @ [v0]) = Some (res, (h @ [v0])[length h := v] @ ext)"
       "newResultDates (h @ [v0]) ((h @ [v0])[length h := v] @ ext) res"
    by auto
  have "listAvailable30MinuteSlotsMultiplePersonS attendees (startRange, endRange) h
          = Some (res, h @ ([v] @ ext))"
    using d(1) by (simp add: listAvailable30MinuteSlotsMultiplePersonS_def newDate_def v0_def)
  moreover have "newResultDates h (h @ ([v] @ ext)) res"
  proof (cases res)
    case (Inl e)
    then show ?thesis by simp
  next
    case (Inr slots)
    with d(2) have "newSlotDates (h @ [v0]) ((h @ [v0])[length h := v] @ ext) slots" by simp
    from newSlotDates_widen [OF this, of h "h @ ([v] @ ext)"] Inr show ?thesis by simp
  qed
  ultimately show ?thesis by blast
qed

section \<open>C1: the block of a range entry\<close>

text \<open>
  C1, as the code has it. The block of a range entry \<open>{hours, minutes}\<close> on a processed
  day starts at that time of day on that day and ends at \<open>hours + 30\<close> hours, that is
  exactly 30 hours (not 30 minutes) after its start; every sub-slot the walk of that
  entry emits is a 30-minute slot that lies inside this 30-hour block.
\<close>

theorem entry_block_is_thirty_hours:
  "blockEnd d r = blockStart d r + 30 * msPerHour \<and>
   (\<forall>s \<in> set (entrySlots evs sr er d r).
      durationM s = 30 \<and> blockStart d r \<le> start s \<and>
      calculateSlotEndTime (start s) (durationM s) \<le> blockEnd d r)"
proof (intro conjI ballI)
  show "blockEnd d r = blockStart d r + 30 * msPerHour" by (rule blockEnd_blockStart)
next
  fix s assume "s \<in> set (entrySlots evs sr er d r)"
  then have m: "s \<in> set (slotWalk evs sr er (blockEnd d r) (blockStart d r))"
    by (simp add: entrySlots_def)
  note f = slotWalk_member [OF m]
  from f show "durationM s = 30" by simp
  from f show "blockStart d r \<le> start s" by simp
  from f have "(start s - blockStart d r) mod 1800000 = 0" by simp
  moreover from f have "start s - blockStart d r < 60 * 1800000"
    by (simp add: blockEnd_blockStart msPerHour_def)
  ultimately have "start s - blockStart d r + 1800000 \<le> 60 * 1800000"
    by (rule grid_step) simp
  with f show "calculateSlotEndTime (start s) (durationM s) \<le> blockEnd d r"
    by (simp add: calculateSlotEndTime_def blockEnd_blockStart msPerHour_def)
qed

text \<open>
  The theorem at the Sunday entry 09:00 with the range 09:00 to 12:00: the slot at 11:30
  is emitted by the walk of that entry and lies in its block.
\<close>

theorem entry_block_is_thirty_hours_witness:
  "slot30 (dateUTC sunday 11 30)
     \<in> set (entrySlots [] (dateUTC sunday 9 0) (dateUTC sunday 12 0) (dateUTC sunday 9 0) nine) \<and>
   blockStart (dateUTC sunday 9 0) nine \<le> dateUTC sunday 11 30 \<and>
   calculateSlotEndTime (dateUTC sunday 11 30) 30 \<le> blockEnd (dateUTC sunday 9 0) nine"
proof -
  have m: "slot30 (dateUTC sunday 11 30)
     \<in> set (entrySlots [] (dateUTC sunday 9 0) (dateUTC sunday 12 0) (dateUTC sunday 9 0) nine)"
    by (simp add: sundayNine_walk)
  from entry_block_is_thirty_hours [THEN conjunct2, THEN bspec, OF m] m
  show ?thesis by (simp add: slot30_def)
qed

text \<open>
  C1 as stated fails: for the entry 09:00 the block does not end 30 minutes after its
  start, and with the range 09:00 to 12:00 the walk of that one entry emits the slot
  from 11:30 to 12:00, far outside the half hour from 09:00 to 09:30.
\<close>

theorem entry_block_thirty_minutes_counterexample:
  "blockEnd (dateUTC sunday 9 0) nine \<noteq> blockStart (dateUTC sunday 9 0) nine + 30 * msPerMinute \<and>
   slot30 (dateUTC sunday 11 30)
     \<in> set (entrySlots [] (dateUTC sunday 9 0) (dateUTC sunday 12 0) (dateUTC sunday 9 0) nine) \<and>
   blockStart (dateUTC sunday 9 0) nine + 30 * msPerMinute < start (slot30 (dateUTC sunday 11 30))"
proof (intro conjI)
  show "blockEnd (dateUTC sunday 9 0) nine \<noteq> blockStart (dateUTC sunday 9 0) nine + 30 * msPerMinute"
    by code_simp
  show "slot30 (dateUTC sunday 11 30)
     \<in> set (entrySlots [] (dateUTC sunday 9 0) (dateUTC sunday 12 0) (dateUTC sunday 9 0) nine)"
    by (simp add: sundayNine_walk)
  show "blockStart (dateUTC sunday 9 0) nine + 30 * msPerMinute < start (slot30 (dateUTC sunday 11 30))"
    by code_simp
qed

section \<open>C2: enumerated slots and the validator with buffers\<close>

text \<open>
  C2, as the code has it. With time-of-day values in range and the process running in
  UTC (the zone \<open>utcZone\<close>): every slot that listAvailable30MinuteSlots returns passes the
  event test of isSlotAvailableWithBuffer and was emitted while some day \<open>d\<close> of the
  range was processed; and a slot emitted while day \<open>d\<close> was processed is accepted by
  isSlotAvailableWithBuffer, for the same availability and events, whenever it starts on
  the UTC day of \<open>d\<close>. Nothing is promised for a slot that a block carries past
  midnight into the next UTC day.
\<close>

theorem returned_slots_validate_on_their_day:
  assumes "validAvailability a"
  shows "(\<forall>s \<in> set (listAvailable30MinuteSlots a evs (sr, er)).
            \<not> isSlotConflictedWithEvents (start s)
                 (calculateSlotEndTime (start s) (durationM s)) evs \<and>
            (\<exists>d. sr \<le> d \<and> d \<le> er \<and> s \<in> set (daySlots a evs sr er d))) \<and>
         (\<forall>d. \<forall>s \<in> set (daySlots a evs sr er d).
            utcDay (start s) = utcDay d \<longrightarrow> isSlotAvailableWithBuffer utcZone a evs s)"
proof (intro conjI ballI allI impI)
  fix s assume "s \<in> set (listAvailable30MinuteSlots a evs (sr, er))"
  then have "s \<in> set (dayLoop a evs sr er sr)" by (simp add: listAvailable30MinuteSlots_def)
  from dayLoop_member [OF this]
  show "\<exists>d. sr \<le> d \<and> d \<le> er \<and> s \<in> set (daySlots a evs sr er d)" .
  then obtain d where "s \<in> set (daySlots a evs sr er d)" by blast
  from daySlots_member [OF this] obtain r where "s \<in> set (entrySlots evs sr er d r)" by blast
  then have "s \<in> set (slotWalk evs sr er (blockEnd d r) (blockStart d r))"
    by (simp add: entrySlots_def)
  from slotWalk_member [OF this]
  have "\<not> hasConflict evs (start s) (calculateSlotEndTime (start s) (durationM s))"
    by (simp add: calculateSlotEndTime_def)
  then show "\<not> isSlotConflictedWithEvents (start s)
                 (calculateSlotEndTime (start s) (durationM s)) evs"
    by (rule not_hasConflict_not_conflicted)
next
  fix d s
  assume s: "s \<in> set (daySlots a evs sr er d)" and day: "utcDay (start s) = utcDay d"
  from daySlots_member [OF s] obtain entry r where
    e: "entry \<in> set (includeE a)" "weekday entry = getUTCDay d" "r \<in> set (rangeT entry)"
       "s \<in> set (entrySlots evs sr er d r)"
    by blast
  from assms e(1,3) have r: "validTimeOfDay r"
    by (auto simp: validAvailability_def list_all_iff)
  have "isSlotInRange utcZone (start s) (calculateSlotEndTime (start s) (durationM s)) (rangeT entry)"
    using same_day_slot_in_range [OF e(4) day r] e(3) by (rule isSlotInRange_mono)
  moreover from e(2) day have "weekday entry = getUTCDay (start s)"
    by (simp add: getUTCDay_def)
  ultimately have w: "isSlotWithinAvailability utcZone (start s)
       (calculateSlotEndTime (start s) (durationM s)) a"
    using e(1) by (auto simp: isSlotWithinAvailability_def list_ex_iff)
  from e(4) have "s \<in> set (slotWalk evs sr er (blockEnd d r) (blockStart d r))"
    by (simp add: entrySlots_def)
  from slotWalk_member [OF this]
  have "\<not> hasConflict evs (start s) (calculateSlotEndTime (start s) (durationM s))"
    by (simp add: calculateSlotEndTime_def)
  then have "\<not> isSlotConflictedWithEvents (start s)
                 (calculateSlotEndTime (start s) (durationM s)) evs"
    by (rule not_hasConflict_not_conflicted)
  with w show "isSlotAvailableWithBuffer utcZone a evs s"
    by (simp add: isSlotAvailableWithBuffer_def Let_def)
qed


text \<open>
  The theorem at the Sunday entry 09:00, no events, range Sunday 09:00 to Monday 12:00:
  the slot at Sunday 11:30 is returned, was emitted on that Sunday, and validates.
\<close>

theorem returned_slots_validate_on_their_day_witness:
  "validAvailability sundayNine \<and>
   slot30 (dateUTC sunday 11 30)
     \<in> set (listAvailable30MinuteSlots sundayNine [] (dateUTC sunday 9 0, dateUTC sunday 36 0)) \<and>
   slot30 (dateUTC sunday 11 30)
     \<in> set (daySlots sundayNine [] (dateUTC sunday 9 0) (dateUTC sunday 36 0) (dateUTC sunday 9 0)) \<and>
   utcDay (start (slot30 (dateUTC sunday 11 30))) = utcDay (dateUTC sunday 9 0) \<and>
   \<not> isSlotConflictedWithEvents (start (slot30 (dateUTC sunday 11 30)))
       (calculateSlotEndTime (start (slot30 (dateUTC sunday 11 30)))
          (durationM (slot30 (dateUTC sunday 11 30)))) [] \<and>
   isSlotAvailableWithBuffer utcZone sundayNine [] (slot30 (dateUTC sunday 11 30))"
proof -
  have v: "validAvailability sundayNine" by code_simp
  have m: "slot30 (dateUTC sunday 11 30)
     \<in> set (listAvailable30MinuteSlots sundayNine [] (dateUTC sunday 9 0, dateUTC sunday 36 0))"
    by code_simp
  have m': "slot30 (dateUTC sunday 11 30)
     \<in> set (daySlots sundayNine [] (dateUTC sunday 9 0) (dateUTC sunday 36 0) (dateUTC sunday 9 0))"
    by code_simp
  have d: "utcDay (start (slot30 (dateUTC sunday 11 30))) = utcDay (dateUTC sunday 9 0)"
    by code_simp
  note t = returned_slots_validate_on_their_day [OF v, of "[]" "dateUTC sunday 9 0" "dateUTC sunday 36 0"]
  from t [THEN conjunct1, THEN bspec, OF m]
       t [THEN conjunct2, THEN spec, THEN bspec, OF m', THEN mp, OF d] v m m' d
  show ?thesis by blast
qed

text \<open>
  C2 as stated fails. With the same input the 30-hour block of the Sunday entry runs
  into Monday, so the slot at Monday 10:00 (Sunday 34:00) is returned; the validator
  looks for an entry of weekday Monday, finds none, and rejects it.
\<close>

theorem containment_counterexample:
  "slot30 (dateUTC sunday 34 0)
     \<in> set (listAvailable30MinuteSlots sundayNine [] (dateUTC sunday 9 0, dateUTC sunday 36 0)) \<and>
   \<not> isSlotAvailableWithBuffer utcZone sundayNine [] (slot30 (dateUTC sunday 34 0))"
  by code_simp

section \<open>C3: the availability test of the two validators\<close>

text \<open>
  C3 holds of isSlotAvailableWithEvents (lemma \<open>withEvents_first_pair\<close>) and fails on the
  code of isSlotAvailableWithBuffer, whose \<open>isSlotInRange\<close> takes every time-of-day value
  of the entry as the start of a window of 24 hours. In a process running in UTC, with
  the availability Sunday 09:00 to 10:00 and no events, the slot Sunday 11:00 to 11:30
  ends after the \<open>availableEnd\<close> of 10:00 built from the first pair; the buffer variant
  accepts it, and the variant without buffers rejects it. Values beyond the first pair
  are consulted: the slot Sunday 09:00 to 09:30 is rejected for the range 12:00, 13:00
  and accepted for the range 12:00, 13:00, 09:00.
\<close>

theorem buffer_validator_accepts_outside_first_pair:
  "isSlotAvailableWithBuffer utcZone sundayNineToTen [] (slot30 (dateUTC sunday 11 0)) \<and>
   setUTCHours (dateUTC sunday 11 0) (hours ten) (minutes ten)
     < calculateSlotEndTime (dateUTC sunday 11 0) 30 \<and>
   isSlotAvailableWithEvents sundayNineToTen [] (slot30 (dateUTC sunday 11 0)) = Inr False \<and>
   \<not> isSlotAvailableWithBuffer utcZone sundayAfternoon [] (slot30 (dateUTC sunday 9 0)) \<and>
   isSlotAvailableWithBuffer utcZone sundayAfternoonNine [] (slot30 (dateUTC sunday 9 0))"
  by code_simp

section \<open>C4: order of the returned sequence\<close>

lemma nineToTen_output:
  "listAvailable30MinuteSlots sundayNineToTen [] (dateUTC sunday 9 0, dateUTC sunday 12 0) =
     [slot30 (dateUTC sunday 9 0), slot30 (dateUTC sunday 9 30), slot30 (dateUTC sunday 10 0),
      slot30 (dateUTC sunday 10 30), slot30 (dateUTC sunday 11 0), slot30 (dateUTC sunday 11 30),
      slot30 (dateUTC sunday 10 0), slot30 (dateUTC sunday 10 30), slot30 (dateUTC sunday 11 0),
      slot30 (dateUTC sunday 11 30)]"
  by code_simp

text \<open>
  C4, as the code has it. The returned sequence is made of walks in this order: the days
  \<open>startRange\<close>, \<open>startRange\<close> plus one day, and so on, as long as they are not after
  \<open>endRange\<close>; on each day the time-of-day values of the first availability entry whose
  weekday is the UTC weekday of the day (none when there is no such entry), in the
  order of its range; and for each value the slots of its walk. Inside each walk the
  start times are strictly ascending. The sequence is thus in day order, then entry
  order, then time order, which is not ascending order of start time when blocks
  overlap.
\<close>

theorem output_in_day_entry_time_order:
  "listAvailable30MinuteSlots a evs (sr, er) =
     concat (map (\<lambda>k.
        concat (map (entrySlots evs sr er (sr + int k * msPerDay))
                  (case find (\<lambda>day. weekday day = getUTCDay (sr + int k * msPerDay)) (includeE a) of
                     None \<Rightarrow> [] | Some dayAvailability \<Rightarrow> rangeT dayAvailability)))
        [0..<(if sr \<le> er then nat ((er - sr) div msPerDay) + 1 else 0)]) \<and>
   (\<forall>d r. sorted_wrt (<) (map start (entrySlots evs sr er d r)))"
proof
  show "listAvailable30MinuteSlots a evs (sr, er) =
     concat (map (\<lambda>k.
        concat (map (entrySlots evs sr er (sr + int k * msPerDay))
                  (case find (\<lambda>day. weekday day = getUTCDay (sr + int k * msPerDay)) (includeE a) of
                     None \<Rightarrow> [] | Some dayAvailability \<Rightarrow> rangeT dayAvailability)))
        [0..<(if sr \<le> er then nat ((er - sr) div msPerDay) + 1 else 0)])"
    unfolding listAvailable30MinuteSlots_def prod.case dayLoop_days [of a evs sr er sr]
      daySlots_entries ..
  show "\<forall>d r. sorted_wrt (<) (map start (entrySlots evs sr er d r))"
    by (simp add: entrySlots_def slotWalk_ascending)
qed

text \<open>
  The theorem at the availability Sunday 09:00, 10:00, no events, and the range Sunday
  09:00 to 12:00: one day, the walk of 09:00 and then the walk of 10:00.
\<close>

theorem output_in_day_entry_time_order_witness:
  "listAvailable30MinuteSlots sundayNineToTen [] (dateUTC sunday 9 0, dateUTC sunday 12 0) =
     entrySlots [] (dateUTC sunday 9 0) (dateUTC sunday 12 0) (dateUTC sunday 9 0) nine @
     entrySlots [] (dateUTC sunday 9 0) (dateUTC sunday 12 0) (dateUTC sunday 9 0) ten \<and>
   sorted_wrt (<) (map start
     (entrySlots [] (dateUTC sunday 9 0) (dateUTC sunday 12 0) (dateUTC sunday 9 0) nine)) \<and>
   sorted_wrt (<) (map start
     (entrySlots [] (dateUTC sunday 9 0) (dateUTC sunday 12 0) (dateUTC sunday 9 0) ten))"
proof -
  note t = output_in_day_entry_time_order
    [of sundayNineToTen "[]" "dateUTC sunday 9 0" "dateUTC sunday 12 0"]
  have n: "(if dateUTC sunday 9 0 \<le> dateUTC sunday 12 0
            then nat ((dateUTC sunday 12 0 - dateUTC sunday 9 0) div msPerDay) + 1 else 0) = Suc 0"
    by code_simp
  have f: "find (\<lambda>day. weekday day = getUTCDay (dateUTC sunday 9 0)) (includeE sundayNineToTen)
             = Some \<lparr>weekday = 0, rangeT = [nine, ten]\<rparr>"
    by code_simp
  from t [THEN conjunct1] have "listAvailable30MinuteSlots sundayNineToTen []
        (dateUTC sunday 9 0, dateUTC sunday 12 0) =
     entrySlots [] (dateUTC sunday 9 0) (dateUTC sunday 12 0) (dateUTC sunday 9 0) nine @
     entrySlots [] (dateUTC sunday 9 0) (dateUTC sunday 12 0) (dateUTC sunday 9 0) ten"
    unfolding n by (simp add: f)
  with t [THEN conjunct2] show ?thesis by blast
qed

text \<open>
  C4 as stated fails. For the same input the walk of the entry 09:00 emits 09:00 up
  to 11:30, and the walk of the entry 10:00 then emits 10:00 up to 11:30 again: the
  returned sequence steps back from 11:30 to 10:00.
\<close>

theorem output_sorted_counterexample:
  "\<not> sorted (map start
       (listAvailable30MinuteSlots sundayNineToTen [] (dateUTC sunday 9 0, dateUTC sunday 12 0)))"
  by code_simp


section \<open>C5: exceptions\<close>




section \<open>C6: a slot that touches a buffered event\<close>

text \<open>
  C6. Let a slot end exactly at the buffered start of an event
  (\<open>event.start - buffer.before\<close>) or start exactly at its buffered end
  (\<open>event.end + buffer.after\<close>). Then the test of isSlotAvailableWithBuffer reports no
  conflict with that event, the test of listAvailable30MinuteSlotsMultiplePerson reports
  no overlap, and so does the three-way test of listAvailable30MinuteSlots for an
  event of the data model (\<open>start < end\<close>, buffers not negative) and a slot that ends
  after it starts, as every sub-slot of the walk does.
\<close>

theorem touching_slot_is_no_conflict:
  assumes "calculateEventStartWithBuffer ev = Some slotEnd \<or>
           calculateEventEndWithBuffer ev = Some slotStart"
  shows "\<not> isSlotConflictedWith slotStart slotEnd ev \<and>
         noOverlapWith slotStart slotEnd ev \<and>
         (validEvent ev \<and> slotStart < slotEnd \<longrightarrow> \<not> hasConflictWith slotStart slotEnd ev)"
proof -
  from assms have n: "\<not> isSlotConflictedWith slotStart slotEnd ev"
    unfolding isSlotConflictedWith_bounds by auto
  from assms have "noOverlapWith slotStart slotEnd ev"
    unfolding noOverlapWith_bounds by auto
  moreover have "validEvent ev \<and> slotStart < slotEnd \<longrightarrow> \<not> hasConflictWith slotStart slotEnd ev"
    using n hasConflictWith_overlap by blast
  ultimately show ?thesis using n by blast
qed

text \<open>
  The theorem at the event 10:00 to 11:00 with 15 minutes of buffer and the slot 09:15
  to 09:45, which ends at the buffered start 09:45.
\<close>

theorem touching_slot_is_no_conflict_witness:
  "validEvent tenToEleven \<and>
   calculateEventStartWithBuffer tenToEleven = Some (calculateSlotEndTime (dateUTC sunday 9 15) 30) \<and>
   dateUTC sunday 9 15 < calculateSlotEndTime (dateUTC sunday 9 15) 30 \<and>
   \<not> isSlotConflictedWith (dateUTC sunday 9 15) (calculateSlotEndTime (dateUTC sunday 9 15) 30) tenToEleven \<and>
   noOverlapWith (dateUTC sunday 9 15) (calculateSlotEndTime (dateUTC sunday 9 15) 30) tenToEleven \<and>
   \<not> hasConflictWith (dateUTC sunday 9 15) (calculateSlotEndTime (dateUTC sunday 9 15) 30) tenToEleven"
proof -
  have v: "validEvent tenToEleven" by code_simp
  have t: "calculateEventStartWithBuffer tenToEleven
             = Some (calculateSlotEndTime (dateUTC sunday 9 15) 30)"
    by code_simp
  have l: "dateUTC sunday 9 15 < calculateSlotEndTime (dateUTC sunday 9 15) 30" by code_simp
  from touching_slot_is_no_conflict [of tenToEleven "calculateSlotEndTime (dateUTC sunday 9 15) 30"
      "dateUTC sunday 9 15", OF disjI1, OF t] v t l
  show ?thesis by blast
qed

section \<open>C7: buffers are monotone\<close>




section \<open>C8: intersectRanges commutes\<close>

text \<open>
  C8. For two valid pair-sequences \<open>A\<close> and \<open>B\<close>, \<open>intersectRanges A B\<close> and
  \<open>intersectRanges B A\<close> both return, and their results denote the same set of
  \<open>(start, end)\<close> pairs: the same pairs of minutes since midnight, and, when hours lie
  in 0..23 and minutes in 0..59 (so that a time of day is determined by its minutes
  since midnight), the same pairs of time-of-day values.
\<close>

theorem intersectRanges_commutes:
  assumes "validPairs A" and "validPairs B"
  shows "\<exists>ab ba. intersectRanges A B = Inr ab \<and> intersectRanges B A = Inr ba \<and>
           minutePairs ab = minutePairs ba \<and>
           (list_all validTimeOfDay (A @ B) \<longrightarrow> set (pairsOf ab) = set (pairsOf ba))"
proof -
  from intersectRest_overlaps [OF assms] obtain ab where
    ab: "intersectRest A B = Inr ab" "minutePairs ab = overlaps (minutePairs A) (minutePairs B)"
    by blast
  from intersectRest_overlaps [OF assms(2,1)] obtain ba where
    ba: "intersectRest B A = Inr ba" "minutePairs ba = overlaps (minutePairs B) (minutePairs A)"
    by blast
  from ab(2) ba(2) have m: "minutePairs ab = minutePairs ba"
    by (simp add: overlaps_commute [of "minutePairs A"])
  have "set (pairsOf ab) = set (pairsOf ba)" if v: "list_all validTimeOfDay (A @ B)"
  proof -
    from assms have e: "even (length A)" "even (length B)" by (simp_all add: validPairs_even)
    from intersectRest_even [OF e] ab(1) have "set ab \<subseteq> set A \<union> set B" by auto
    moreover from intersectRest_even [OF e(2,1)] ba(1) have "set ba \<subseteq> set B \<union> set A" by auto
    moreover from v have "set A \<union> set B \<subseteq> Collect validTimeOfDay"
      by (auto simp: list_all_iff)
    ultimately have "set ab \<subseteq> Collect validTimeOfDay" "set ba \<subseteq> Collect validTimeOfDay"
      by blast+
    from valid_pairs_equal [OF this m] show ?thesis .
  qed
  with ab(1) ba(1) m show ?thesis by (auto simp: intersectRanges_rest)
qed

text \<open>
  The theorem at the ranges 09:00 to 12:00 and 10:00 to 11:00, 12:00 to 13:00, whose
  intersection is 10:00 to 11:00 in either order.
\<close>

theorem intersectRanges_commutes_witness:
  "validPairs [nine, twelve] \<and> validPairs [ten, eleven, twelve, thirteen] \<and>
   list_all validTimeOfDay ([nine, twelve] @ [ten, eleven, twelve, thirteen]) \<and>
   (\<exists>ab ba. intersectRanges [nine, twelve] [ten, eleven, twelve, thirteen] = Inr ab \<and>
      intersectRanges [ten, eleven, twelve, thirteen] [nine, twelve] = Inr ba \<and>
      ab = [ten, eleven] \<and> minutePairs ab = minutePairs ba \<and>
      set (pairsOf ab) = set (pairsOf ba))"
proof -
  have a: "validPairs [nine, twelve]" and b: "validPairs [ten, eleven, twelve, thirteen]"
    by code_simp+
  have v: "list_all validTimeOfDay ([nine, twelve] @ [ten, eleven, twelve, thirteen])"
    by code_simp
  have r: "intersectRanges [nine, twelve] [ten, eleven, twelve, thirteen] = Inr [ten, eleven]"
    by code_simp
  from intersectRanges_commutes [OF a b] v r a b show ?thesis by auto
qed


section \<open>C9: no call changes a Date of the caller\<close>

text \<open>
  On the example the enumerators over the store return Dates with the time values that
  the enumerators over time values return.
\<close>

lemma store_enumerator_example:
  "map_option (\<lambda>(slots, h'). map (\<lambda>s. getTime h' (slotStartRef s)) slots)
     (listAvailable30MinuteSlotsS sundayNineToTen [tenToElevenObj] (0, 1) sundayStore)
   = Some (map (\<lambda>s. Some (start s))
       (listAvailable30MinuteSlots sundayNineToTen [tenToEleven]
          (dateUTC sunday 0 0, dateUTC sunday 12 0)))"
  by code_simp

lemma store_multi_enumerator_example:
  "map_option (\<lambda>(res, h'). map_sum id (map (\<lambda>s. getTime h' (slotStartRef s))) res)
     (listAvailable30MinuteSlotsMultiplePersonS [sundayAttendee] (0, 1) sundayStore)
   = Some (map_sum id (map (\<lambda>s. Some (start s)))
       (listAvailable30MinuteSlotsMultiplePerson
          [\<lparr>availability = sundayNineToTen, events = [tenToEleven]\<rparr>]
          (dateUTC sunday 0 0, dateUTC sunday 12 0)))"
  by code_simp

text \<open>
  Claim C9. No call changes a Date that existed before it. Each of the three validators
  (\<^verbatim>\<open>isSlotAvailable\<close>, \<^verbatim>\<open>isSlotAvailableWithEvents\<close>, \<^verbatim>\<open>isSlotAvailableWithBuffer\<close>) and
  each of the two enumerators (\<^verbatim>\<open>listAvailable30MinuteSlots\<close>,
  \<^verbatim>\<open>listAvailable30MinuteSlotsMultiplePerson\<close>, which calls \<^verbatim>\<open>intersectRanges\<close>) ends,
  also when it throws, in a store that is the store of the call followed by the Dates
  constructed during the call: the Dates of the events, of the slot and of the range
  have the time values they had, and every setter of the source (\<^verbatim>\<open>setUTCDate\<close>,
  \<^verbatim>\<open>setHours\<close>, \<^verbatim>\<open>setUTCHours\<close>, \<^verbatim>\<open>setMinutes\<close>) has acted on a Date constructed during
  the call. The enumerators return, and the start of every slot they return is a Date
  constructed during the call, a different one for every slot. The end of the range has
  to be a Date of the store.
\<close>

theorem no_call_changes_a_date_of_the_caller:
  assumes "endRange < length h"
  shows "(\<exists>res ext. isSlotAvailableS z avail slot h = (res, h @ ext)) \<and>
         (\<exists>res ext. isSlotAvailableWithEventsS avail evs slot h = (res, h @ ext)) \<and>
         (\<exists>res ext. isSlotAvailableWithBufferS z avail evs slot h = (res, h @ ext)) \<and>
         (\<exists>slots ext.
            listAvailable30MinuteSlotsS avail evs (startRange, endRange) h = Some (slots, h @ ext) \<and>
            newSlotDates h (h @ ext) slots) \<and>
         (\<exists>res ext.
            listAvailable30MinuteSlotsMultiplePersonS attendees (startRange, endRange) h
              = Some (res, h @ ext) \<and>
            newResultDates h (h @ ext) res)"
proof -
  have a: "\<exists>res ext. isSlotAvailableS z avail slot h = (res, h @ ext)"
    using isSlotAvailableS_extends [of z avail slot h]
    by (cases "isSlotAvailableS z avail slot h") auto
  have b: "\<exists>res ext. isSlotAvailableWithEventsS avail evs slot h = (res, h @ ext)"
    using isSlotAvailableWithEventsS_extends [of avail evs slot h]
    by (cases "isSlotAvailableWithEventsS avail evs slot h") auto
  have c: "\<exists>res ext. isSlotAvailableWithBufferS z avail evs slot h = (res, h @ ext)"
    using isSlotAvailableWithBufferS_extends [of z avail evs slot h]
    by (cases "isSlotAvailableWithBufferS z avail evs slot h") auto
  note d = listAvailable30MinuteSlotsS_returns [OF assms, of avail evs startRange]
  note e = listAvailable30MinuteSlotsMultiplePersonS_returns [OF assms, of attendees startRange]
  from a b c d e show ?thesis by (intro conjI)
qed

theorem no_call_changes_a_date_of_the_caller_witness:
  "(1 :: nat) < length sundayStore \<and>
   (\<exists>res ext. isSlotAvailableS utcZone sundayNineToTen halfPastNine sundayStore
                 = (res, sundayStore @ ext)) \<and>
   (\<exists>res ext. isSlotAvailableWithEventsS sundayNineToTen [tenToElevenObj] halfPastNine sundayStore
                 = (res, sundayStore @ ext)) \<and>
   (\<exists>res ext. isSlotAvailableWithBufferS utcZone sundayNineToTen [tenToElevenObj] halfPastNine
                 sundayStore = (res, sundayStore @ ext)) \<and>
   (\<exists>slots ext.
      listAvailable30MinuteSlotsS sundayNineToTen [tenToElevenObj] (0, 1) sundayStore
        = Some (slots, sundayStore @ ext) \<and>
      newSlotDates sundayStore (sundayStore @ ext) slots) \<and>
   (\<exists>res ext.
      listAvailable30MinuteSlotsMultiplePersonS [sundayAttendee] (0, 1) sundayStore
        = Some (res, sundayStore @ ext) \<and>
      newResultDates sundayStore (sundayStore @ ext) res)"
proof -
  have len: "(1 :: nat) < length sundayStore" by (simp add: sundayStore_def)
  from len no_call_changes_a_date_of_the_caller
         [OF len, of utcZone sundayNineToTen halfPastNine "[tenToElevenObj]" 0 "[sundayAttendee]"]
  show ?thesis by (intro conjI) simp_all
qed
section \<open>C10: the multi-person walk and the requested range\<close>

text \<open>
  C10. The walk of listAvailable30MinuteSlotsMultiplePerson goes on while the slot start
  is before the end of the pair and before \<open>endRange\<close>; it compares nothing with
  \<open>startRange\<close> and does not look at the slot end. For one attendee free on Sundays from
  09:00 to 10:00 and the range Sunday 09:15 to 09:45 it returns the slot 09:00 to 09:30,
  which starts before \<open>startRange\<close>, and the slot 09:30 to 10:00, which ends after
  \<open>endRange\<close>; the single-person enumerator returns nothing for the same input.
\<close>

theorem multi_person_does_not_clip_to_range:
  "listAvailable30MinuteSlotsMultiplePerson [\<lparr>availability = sundayNineToTen, events = []\<rparr>]
       (dateUTC sunday 9 15, dateUTC sunday 9 45)
     = Inr [slot30 (dateUTC sunday 9 0), slot30 (dateUTC sunday 9 30)] \<and>
   start (slot30 (dateUTC sunday 9 0)) < dateUTC sunday 9 15 \<and>
   dateUTC sunday 9 45
     < calculateSlotEndTime (start (slot30 (dateUTC sunday 9 30))) (durationM (slot30 (dateUTC sunday 9 30))) \<and>
   listAvailable30MinuteSlots sundayNineToTen [] (dateUTC sunday 9 15, dateUTC sunday 9 45) = []"
  by code_simp

end
